theory Spec2Isabelle
  imports Main
begin

section \<open>The regular expressions of \<open>update_antigravity_version.py\<close>\<close>

text \<open>
  The script compiles two patterns,
  \<^verbatim>\<open>VERSION_PATTERN = re.compile(r'antigravity/(\d+\.\d+\.\d+)')\<close> and
  \<^verbatim>\<open>TARBALL_VERSION_PATTERN = re.compile(r'/(\d+\.\d+\.\d+)-\d+/')\<close>.
  Both are sequences of single characters and greedy repetitions \<open>x+\<close> of a single
  character class, with one capture group. Texts are \<open>string\<close>s, that is lists of the
  code points 0..255; in that range Python's \<open>\d\<close> matches exactly the ten ASCII digits.
\<close>

datatype atom = Lit char | Digit

datatype item = One atom | Plus atom

definition is_digit :: "char \<Rightarrow> bool" where
  "is_digit c = (c \<in> set ''0123456789'')"

fun atom_ok :: "atom \<Rightarrow> char \<Rightarrow> bool" where
  "atom_ok (Lit a) c = (c = a)"
| "atom_ok Digit c = is_digit c"

text \<open>
  \<open>run p s\<close> lists every way in which the items \<open>p\<close> match a prefix of \<open>s\<close>, as pairs
  (matched text, remaining text), in the order in which Python's backtracking matcher
  tries them: a greedy \<open>x+\<close> first takes one more character and only then gives up.
\<close>

fun run :: "item list \<Rightarrow> string \<Rightarrow> (string \<times> string) list" where
  "run [] s = [([], s)]"
| "run (One a # p) [] = []"
| "run (One a # p) (c # cs) =
     (if atom_ok a c then map (apfst ((#) c)) (run p cs) else [])"
| "run (Plus a # p) [] = []"
| "run (Plus a # p) (c # cs) =
     (if atom_ok a c then map (apfst ((#) c)) (run (Plus a # p) cs @ run p cs) else [])"

record pattern =
  before :: "item list"
  group1 :: "item list"
  after :: "item list"

definition lits :: "string \<Rightarrow> item list" where
  "lits s = map (\<lambda>c. One (Lit c)) s"

definition version_items :: "item list" where
  "version_items =
     [Plus Digit, One (Lit CHR ''.''), Plus Digit, One (Lit CHR ''.''), Plus Digit]"

definition VERSION_PATTERN :: pattern where
  "VERSION_PATTERN =
     \<lparr>before = lits ''antigravity/'', group1 = version_items, after = []\<rparr>"

definition TARBALL_VERSION_PATTERN :: pattern where
  "TARBALL_VERSION_PATTERN =
     \<lparr>before = lits ''/'', group1 = version_items,
      after = [One (Lit CHR ''-''), Plus Digit, One (Lit CHR ''/'')]\<rparr>"

text \<open>
  All matches of a pattern at the start of \<open>s\<close>, in backtracking order, as triples
  (whole match, group 1, text after the match); \<open>match_here\<close> is the one Python reports.
\<close>

definition match_all :: "pattern \<Rightarrow> string \<Rightarrow> (string \<times> string \<times> string) list" where
  "match_all pat s =
     concat (map (\<lambda>(m1, r1).
       concat (map (\<lambda>(g, r2).
         map (\<lambda>(m3, r3). (m1 @ g @ m3, g, r3)) (run (after pat) r2))
       (run (group1 pat) r1)))
     (run (before pat) s))"

definition match_here :: "pattern \<Rightarrow> string \<Rightarrow> (string \<times> string \<times> string) option" where
  "match_here pat s = (case match_all pat s of [] \<Rightarrow> None | x # _ \<Rightarrow> Some x)"

text \<open>
  \<open>pattern.search(s)\<close>: the match at the leftmost position that has one. The result is
  (text before the match, whole match, group 1, text after the match).
\<close>

fun search :: "pattern \<Rightarrow> string \<Rightarrow> (string \<times> string \<times> string \<times> string) option" where
  "search pat s =
     (case match_here pat s of
        Some (m, g, r) \<Rightarrow> Some ([], m, g, r)
      | None \<Rightarrow>
          (case s of
             [] \<Rightarrow> None
           | c # cs \<Rightarrow> map_option (\<lambda>(u, x). (c # u, x)) (search pat cs)))"

text \<open>\<open>pattern.fullmatch\<close> on the group alone: the shape of a version token.\<close>

definition is_version :: "string \<Rightarrow> bool" where
  "is_version x = ((x, []) \<in> set (run version_items x))"


section \<open>Replacement templates\<close>

text \<open>
  \<open>pattern.sub(repl, text)\<close> with a string \<open>repl\<close> first compiles \<open>repl\<close> as a template
  (\<open>re._parser.parse_template\<close>, as of CPython 3.12): a backslash starts an escape, which
  is a group reference (\<open>\1\<close>, \<open>\g<1>\<close>), an octal character code, one of the
  character escapes, or an error. The tokenizer reads a backslash together with the
  character after it. A template that cannot be compiled raises an exception before
  any matching takes place.
\<close>

datatype tok = Ch char | Esc char

datatype part = Text char | Group nat

fun tokenize :: "string \<Rightarrow> tok list option" where
  "tokenize [] = Some []"
| "tokenize [c] = (if c = CHR 0x5C then None else Some [Ch c])"
| "tokenize (c # d # cs) =
     (if c = CHR 0x5C then map_option ((#) (Esc d)) (tokenize cs)
      else map_option ((#) (Ch c)) (tokenize (d # cs)))"

definition is_oct :: "char \<Rightarrow> bool" where
  "is_oct c = (c \<in> set ''01234567'')"

definition is_ascii_letter :: "char \<Rightarrow> bool" where
  "is_ascii_letter c =
     (c \<in> set ''abcdefghijklmnopqrstuvwxyzABCDEFGHIJKLMNOPQRSTUVWXYZ'')"

definition digit_val :: "char \<Rightarrow> nat" where
  "digit_val c = of_char c - 48"

definition number :: "nat \<Rightarrow> string \<Rightarrow> nat" where
  "number base ds = foldl (\<lambda>n d. base * n + digit_val d) 0 ds"

fun next_in :: "(char \<Rightarrow> bool) \<Rightarrow> tok list \<Rightarrow> bool" where
  "next_in P (Ch c # ts) = P c"
| "next_in P ts = False"

fun tok_char :: "tok \<Rightarrow> char option" where
  "tok_char (Ch c) = Some c"
| "tok_char (Esc c) = None"

text \<open>\<open>getuntil\<close>: the tokens up to the next \<open>>\<close>, and the tokens after it.\<close>

fun getuntil :: "tok list \<Rightarrow> (tok list \<times> tok list) option" where
  "getuntil [] = None"
| "getuntil (t # ts) =
     (if t = Ch CHR ''>'' then Some ([], ts) else map_option (apfst ((#) t)) (getuntil ts))"

text \<open>
  The group a name between \<open>\g<\<close> and \<open>>\<close> refers to: the name must consist of ASCII
  digits (at most 4300, the limit of \<open>int\<close> on a string) and the number must not exceed
  the number of groups of the pattern. Named groups do not exist in the script's patterns.
\<close>

definition group_index :: "nat \<Rightarrow> tok list \<Rightarrow> nat option" where
  "group_index groups name =
     (if name = [] \<or> 4300 < length name then None
      else if list_all (\<lambda>t. case tok_char t of None \<Rightarrow> False | Some c \<Rightarrow> is_digit c) name
      then (let i = number 10 (map (\<lambda>t. case t of Ch c \<Rightarrow> c | Esc c \<Rightarrow> c) name)
            in if i \<le> groups then Some i else None)
      else None)"

definition ESCAPES :: "char \<Rightarrow> char option" where
  "ESCAPES c =
     (if c = CHR ''a'' then Some (CHR 0x07)
      else if c = CHR ''b'' then Some (CHR 0x08)
      else if c = CHR ''f'' then Some (CHR 0x0C)
      else if c = CHR ''n'' then Some (CHR 0x0A)
      else if c = CHR ''r'' then Some (CHR 0x0D)
      else if c = CHR ''t'' then Some (CHR 0x09)
      else if c = CHR ''v'' then Some (CHR 0x0B)
      else if c = CHR 0x5C then Some (CHR 0x5C)
      else None)"

text \<open>
  One escape \<open>\c\<close> with the tokens \<open>ts\<close> after it: the parts it stands for and the tokens
  left, or \<open>None\<close> where \<open>parse_template\<close> raises.
\<close>

definition escape :: "nat \<Rightarrow> char \<Rightarrow> tok list \<Rightarrow> (part list \<times> tok list) option" where
  "escape groups c ts =
     (if c = CHR ''g'' then
        (if next_in (\<lambda>x. x = CHR ''<'') ts then
           (case getuntil (tl ts) of
              None \<Rightarrow> None
            | Some (name, ts') \<Rightarrow>
                (case group_index groups name of
                   None \<Rightarrow> None
                 | Some i \<Rightarrow> Some ([Group i], ts')))
         else None)
      else if c = CHR ''0'' then
        (case ts of
           Ch a # Ch b # ts' \<Rightarrow>
             if is_oct a \<and> is_oct b then Some ([Text (char_of (number 8 [a, b]))], ts')
             else if is_oct a then Some ([Text (char_of (number 8 [a]))], Ch b # ts')
             else Some ([Text (CHR 0x00)], ts)
         | Ch a # ts' \<Rightarrow>
             if is_oct a then Some ([Text (char_of (number 8 [a]))], ts')
             else Some ([Text (CHR 0x00)], ts)
         | _ \<Rightarrow> Some ([Text (CHR 0x00)], ts))
      else if is_digit c then
        (if next_in is_digit ts then
           (case ts of
              Ch d # ts' \<Rightarrow>
                if is_oct c \<and> is_oct d \<and> next_in is_oct ts' then
                  (case ts' of
                     Ch e # ts'' \<Rightarrow>
                       if 255 < number 8 [c, d, e] then None
                       else Some ([Text (char_of (number 8 [c, d, e]))], ts'')
                   | _ \<Rightarrow> None)
                else if number 10 [c, d] \<le> groups then Some ([Group (number 10 [c, d])], ts')
                else None
            | _ \<Rightarrow> None)
         else if number 10 [c] \<le> groups then Some ([Group (number 10 [c])], ts)
         else None)
      else
        (case ESCAPES c of
           Some x \<Rightarrow> Some ([Text x], ts)
         | None \<Rightarrow> if is_ascii_letter c then None else Some ([Text (CHR 0x5C), Text c], ts)))"

lemma getuntil_shorter: "getuntil ts = Some (name, ts') \<Longrightarrow> length ts' < length ts"
  by (induction ts arbitrary: name) (auto split: if_splits)

lemma escape_shorter: "escape groups c ts = Some (ps, ts') \<Longrightarrow> length ts' \<le> length ts"
  unfolding escape_def
  by (auto split: if_splits option.splits list.splits tok.splits
           dest!: getuntil_shorter simp: less_Suc_eq_le)

function parse_tokens :: "nat \<Rightarrow> tok list \<Rightarrow> part list option" where
  "parse_tokens groups [] = Some []"
| "parse_tokens groups (Ch c # ts) = map_option ((#) (Text c)) (parse_tokens groups ts)"
| "parse_tokens groups (Esc c # ts) =
     (case escape groups c ts of
        None \<Rightarrow> None
      | Some (ps, ts') \<Rightarrow> map_option ((@) ps) (parse_tokens groups ts'))"
  by pat_completeness auto
termination
  by (relation "measure (\<lambda>(groups, ts). length ts)")
     (auto dest: escape_shorter simp: less_Suc_eq_le)

definition parse_template :: "nat \<Rightarrow> string \<Rightarrow> part list option" where
  "parse_template groups repl =
     (case tokenize repl of None \<Rightarrow> None | Some ts \<Rightarrow> parse_tokens groups ts)"

text \<open>The text a compiled template stands for at a match with the given groups 0 and 1.\<close>

fun expand :: "part list \<Rightarrow> string \<Rightarrow> string \<Rightarrow> string" where
  "expand [] m g = []"
| "expand (Text c # ps) m g = c # expand ps m g"
| "expand (Group i # ps) m g = (if i = 0 then m else g) @ expand ps m g"


section \<open>Substitution\<close>

text \<open>
  \<open>VERSION_PATTERN.sub\<close> replaces the matches it finds from left to right, each search
  starting where the previous match ended. A match of \<open>VERSION_PATTERN\<close> is never empty,
  which is what makes the scan terminate.
\<close>

lemma run_splits: "(m, r) \<in> set (run p s) \<Longrightarrow> s = m @ r"
  by (induction p s arbitrary: m r rule: run.induct) (auto split: if_splits)

lemma match_all_splits: "(m, g, r) \<in> set (match_all pat s) \<Longrightarrow> s = m @ r"
  unfolding match_all_def by (auto dest!: run_splits)

lemma match_here_splits: "match_here pat s = Some (m, g, r) \<Longrightarrow> s = m @ r"
proof -
  assume "match_here pat s = Some (m, g, r)"
  then have "(m, g, r) \<in> set (match_all pat s)"
    by (auto simp: match_here_def split: list.splits)
  then show "s = m @ r"
    by (rule match_all_splits)
qed

lemma search_splits:
  "search pat s = Some (u, m, g, r) \<Longrightarrow> s = u @ m @ r \<and> match_here pat (m @ r) = Some (m, g, r)"
proof (induction s arbitrary: u)
  case Nil
  then have mh: "match_here pat [] = Some (m, g, r)" and u: "u = []"
    by (auto split: option.splits)
  from match_here_splits [OF mh] have "m = []" and "r = []"
    by simp_all
  with mh u show ?case by simp
next
  case (Cons c cs)
  show ?case
  proof (cases "match_here pat (c # cs)")
    case None
    with Cons.prems obtain u' where u: "u = c # u'" and s: "search pat cs = Some (u', m, g, r)"
      by auto
    from Cons.IH [OF s] u show ?thesis by simp
  next
    case (Some x)
    with Cons.prems have x: "x = (m, g, r)" and "u = []"
      by (auto split: prod.splits)
    with Some match_here_splits [of pat "c # cs" m g r] show ?thesis by simp
  qed
qed

declare search.simps [simp del]

lemma run_lits_nonempty: "(m, r) \<in> set (run (lits (c # cs) @ p) s) \<Longrightarrow> m \<noteq> []"
  by (cases s) (auto simp: lits_def split: if_splits)

lemma match_VERSION_PATTERN_nonempty:
  "match_here VERSION_PATTERN s = Some (m, g, r) \<Longrightarrow> m \<noteq> []"
proof -
  assume a: "match_here VERSION_PATTERN s = Some (m, g, r)"
  then have "(m, g, r) \<in> set (match_all VERSION_PATTERN s)"
    by (auto simp: match_here_def split: list.splits)
  then obtain m1 r1 where "(m1, r1) \<in> set (run (lits ''antigravity/'' @ []) s)" and "\<exists>x. m = m1 @ x"
    unfolding match_all_def VERSION_PATTERN_def by auto
  then show "m \<noteq> []"
    using run_lits_nonempty [of m1 r1 "CHR ''a''" "''ntigravity/''" "[]" s] by auto
qed

lemma search_VERSION_PATTERN_shorter:
  "search VERSION_PATTERN s = Some (u, m, g, r) \<Longrightarrow> length r < length s"
  using search_splits [of VERSION_PATTERN s u m g r] match_VERSION_PATTERN_nonempty [of "m @ r" m g r]
  by auto

function sub_loop :: "part list \<Rightarrow> string \<Rightarrow> string" where
  "sub_loop ps s =
     (case search VERSION_PATTERN s of
        None \<Rightarrow> s
      | Some (u, m, g, r) \<Rightarrow> u @ expand ps m g @ sub_loop ps r)"
  by pat_completeness auto
termination
  by (relation "measure (\<lambda>(ps, s). length s)") (auto dest: search_VERSION_PATTERN_shorter)

declare sub_loop.simps [simp del]

text \<open>
  \<open>VERSION_PATTERN.sub(repl, s)\<close>: \<open>None\<close> when compiling the template raises
  (\<open>re.error\<close>, or \<open>IndexError\<close> for an unknown group name). The pattern has one group.
\<close>

definition VERSION_PATTERN_sub :: "string \<Rightarrow> string \<Rightarrow> string option" where
  "VERSION_PATTERN_sub repl s =
     (case parse_template 1 repl of None \<Rightarrow> None | Some ps \<Rightarrow> Some (sub_loop ps s))"


section \<open>The script\<close>

text \<open>
  The world the script runs in: the contents of \<open>constants.rs\<close> at \<open>CONSTANTS_PATH\<close>
  as text, the way \<open>read_text\<close> returns it and \<open>write_text\<close> takes it (\<open>None\<close> when
  the file does not exist), whether writing it succeeds, how often \<open>read_text\<close> and
  \<open>write_text\<close> were called on it, and the lines printed to standard output and
  standard error. Reading an existing file succeeds; a failing write raises and leaves
  the file as it was. Nothing else changes the file while the script runs.
\<close>

record world =
  file_text :: "string option"
  writable :: bool
  reads :: nat
  writes :: nat
  stdout :: "string list"
  stderr :: "string list"

datatype exn = Template_error | Write_error

definition print_out :: "string \<Rightarrow> world \<Rightarrow> world" where
  "print_out line w = w\<lparr>stdout := stdout w @ [line]\<rparr>"

definition print_err :: "string \<Rightarrow> world \<Rightarrow> world" where
  "print_err line w = w\<lparr>stderr := stderr w @ [line]\<rparr>"

definition read_text :: "string \<Rightarrow> world \<Rightarrow> string \<times> world" where
  "read_text content w = (content, w\<lparr>reads := reads w + 1\<rparr>)"

definition write_text :: "string \<Rightarrow> world \<Rightarrow> exn option \<times> world" where
  "write_text content w =
     (if writable w then (None, w\<lparr>file_text := Some content, writes := writes w + 1\<rparr>)
      else (Some Write_error, w\<lparr>writes := writes w + 1\<rparr>))"

text \<open>
  What the page renderer does for \<open>fetch_latest_version\<close>: playwright cannot be
  imported, it raises (with the text of the exception), or it evaluates the selector
  to the link's \<open>href\<close> or to \<open>null\<close>.
\<close>

datatype page = Not_installed | Raises string | Href "string option"

text \<open>The path of the tracked file below the repository; the script only prints it.\<close>

definition CONSTANTS_PATH :: string where
  "CONSTANTS_PATH = ''src-tauri/src/oauth/gemini/constants.rs''"

definition fetch_latest_version :: "page \<Rightarrow> world \<Rightarrow> string option \<times> world" where
  "fetch_latest_version pg w =
     (case pg of
        Not_installed \<Rightarrow>
          (None, print_err ''  uv pip install playwright && playwright install chromium''
                   (print_err ''playwright not installed. Install with:'' w))
      | Raises e \<Rightarrow> (None, print_err (''Error fetching version: '' @ e) w)
      | Href None \<Rightarrow> (None, print_err ''Could not find tarball download link'' w)
      | Href (Some href) \<Rightarrow>
          if href = [] then (None, print_err ''Could not find tarball download link'' w)
          else
            (case search TARBALL_VERSION_PATTERN href of
               Some (u, m, g, r) \<Rightarrow> (Some g, w)
             | None \<Rightarrow> (None, print_err (''Could not parse version from: '' @ href) w)))"

definition get_current_version :: "world \<Rightarrow> string option \<times> world" where
  "get_current_version w =
     (case file_text w of
        None \<Rightarrow> (None, print_err (''Constants file not found: '' @ CONSTANTS_PATH) w)
      | Some text \<Rightarrow>
          (case read_text text w of
             (content, w1) \<Rightarrow>
               (case search VERSION_PATTERN content of
                  Some (u, m, g, r) \<Rightarrow> (Some g, w1)
                | None \<Rightarrow>
                    (None, print_err ''Could not find USER_AGENT version in constants.rs'' w1))))"

definition update_version :: "string \<Rightarrow> bool \<Rightarrow> world \<Rightarrow> (exn + bool) \<times> world" where
  "update_version new_version dry_run w =
     (case file_text w of
        None \<Rightarrow> (Inr False, w)
      | Some text \<Rightarrow>
          (case read_text text w of
             (content, w1) \<Rightarrow>
               (case VERSION_PATTERN_sub (''antigravity/'' @ new_version) content of
                  None \<Rightarrow> (Inl Template_error, w1)
                | Some new_content \<Rightarrow>
                    if content = new_content then (Inr True, print_out ''No changes needed'' w1)
                    else if dry_run then
                      (Inr True,
                       print_out (''Would update USER_AGENT to: antigravity/'' @ new_version) w1)
                    else
                      (case write_text new_content w1 of
                         (Some e, w2) \<Rightarrow> (Inl e, w2)
                       | (None, w2) \<Rightarrow>
                           (Inr True,
                            print_out (''Updated USER_AGENT to: antigravity/'' @ new_version) w2)))))"

definition extract_version_from_url :: "string \<Rightarrow> world \<Rightarrow> string option \<times> world" where
  "extract_version_from_url url w =
     (case search TARBALL_VERSION_PATTERN url of
        Some (u, m, g, r) \<Rightarrow> (Some g, w)
      | None \<Rightarrow> (None, print_err (''Could not parse version from URL: '' @ url) w))"

text \<open>
  The parsed command line. \<open>--version\<close> and \<open>--url\<close> are \<open>None\<close> when the flag is not
  given. Python's \<open>if x:\<close> on such a value holds when it is a non-empty string:
  \<open>truthy\<close> returns that string.
\<close>

record args =
  check :: bool
  dry_run :: bool
  version :: "string option"
  url :: "string option"

definition truthy :: "string option \<Rightarrow> string option" where
  "truthy v = (case v of None \<Rightarrow> None | Some s \<Rightarrow> if s = [] then None else Some s)"

text \<open>
  \<open>main\<close> from the line \<open>print(f"Latest version:  {latest}")\<close> on. The result is the
  argument of \<open>sys.exit\<close>, or the exception that leaves \<open>main\<close>.
\<close>

definition main_compare :: "args \<Rightarrow> string \<Rightarrow> string \<Rightarrow> world \<Rightarrow> (exn + nat) \<times> world" where
  "main_compare a current latest w =
     (let w1 = print_out (''Latest version:  '' @ latest) w in
      if current = latest then (Inr 0, print_out ''Already up to date'' w1)
      else if check a then
        (Inr 1, print_out (''Update available: '' @ current @ '' -> '' @ latest) w1)
      else
        (case update_version latest (dry_run a) w1 of
           (Inl e, w2) \<Rightarrow> (Inl e, w2)
         | (Inr ok, w2) \<Rightarrow> if ok then (Inr 0, w2) else (Inr 1, w2)))"

definition main :: "args \<Rightarrow> page \<Rightarrow> world \<Rightarrow> (exn + nat) \<times> world" where
  "main a pg w =
     (case get_current_version w of
        (current, w1) \<Rightarrow>
          (case truthy current of
             None \<Rightarrow> (Inr 1, w1)
           | Some cur \<Rightarrow>
               (let w2 = print_out (''Current version: '' @ cur) w1 in
                case truthy (version a) of
                  Some v \<Rightarrow> main_compare a cur v w2
                | None \<Rightarrow>
                    (case truthy (url a) of
                       Some u \<Rightarrow>
                         (case extract_version_from_url u w2 of
                            (latest, w3) \<Rightarrow>
                              (case truthy latest of
                                 None \<Rightarrow> (Inr 1, w3)
                               | Some l \<Rightarrow> main_compare a cur l w3))
                     | None \<Rightarrow>
                         (case fetch_latest_version pg w2 of
                            (latest, w3) \<Rightarrow>
                              (case truthy latest of
                                 None \<Rightarrow> (Inr 1, w3)
                               | Some l \<Rightarrow> main_compare a cur l w3))))))"

text \<open>
  The exit status of the process: the argument of \<open>sys.exit\<close>, and 1 when an exception
  leaves \<open>main\<close> (the interpreter prints the traceback and exits with status 1).
\<close>

definition exit_code :: "(exn + nat) \<times> world \<Rightarrow> nat" where
  "exit_code res = (case fst res of Inl e \<Rightarrow> 1 | Inr n \<Rightarrow> n)"


text \<open>
  The lines of \<open>main\<close> that determine the latest version, as a function of their own:
  the result is the version \<open>main\<close> goes on with, or \<open>None\<close> where it exits with status 1.
\<close>

definition resolve_latest :: "args \<Rightarrow> page \<Rightarrow> world \<Rightarrow> string option \<times> world" where
  "resolve_latest a pg w =
     (case truthy (version a) of
        Some v \<Rightarrow> (Some v, w)
      | None \<Rightarrow>
          (case truthy (url a) of
             Some u \<Rightarrow> (case extract_version_from_url u w of (latest, w') \<Rightarrow> (truthy latest, w'))
           | None \<Rightarrow> (case fetch_latest_version pg w of (latest, w') \<Rightarrow> (truthy latest, w'))))"

text \<open>
  The contents \<open>update_version\<close> computes for the tracked file: \<open>None\<close> when the file
  is missing or the template raises.
\<close>

definition patched :: "string \<Rightarrow> world \<Rightarrow> string option" where
  "patched new_version w =
     (case file_text w of
        None \<Rightarrow> None
      | Some content \<Rightarrow> VERSION_PATTERN_sub (''antigravity/'' @ new_version) content)"

text \<open>Inputs used in the examples below.\<close>

definition world_of :: "string \<Rightarrow> world" where
  "world_of content =
     \<lparr>file_text = Some content, writable = True, reads = 0, writes = 0,
      stdout = [], stderr = []\<rparr>"

definition no_flags :: args where
  "no_flags = \<lparr>check = False, dry_run = False, version = None, url = None\<rparr>"


section \<open>Notions used in the statements\<close>

text \<open>A non-empty string of digits: what \<open>\d+\<close> matches in full.\<close>

definition digit_string :: "string \<Rightarrow> bool" where
  "digit_string ds = (ds \<noteq> [] \<and> list_all is_digit ds)"

text \<open>The text goes on with a digit, so that a greedy \<open>\d+\<close> before it would take more.\<close>

fun starts_with_digit :: "string \<Rightarrow> bool" where
  "starts_with_digit [] = False"
| "starts_with_digit (c # cs) = is_digit c"

text \<open>\<open>no_match_before pat u s\<close>: in the text \<open>u @ s\<close> no match of \<open>pat\<close> starts inside \<open>u\<close>.\<close>

fun no_match_before :: "pattern \<Rightarrow> string \<Rightarrow> string \<Rightarrow> bool" where
  "no_match_before pat [] s = True"
| "no_match_before pat (c # u) s =
     (match_here pat (c # u @ s) = None \<and> no_match_before pat u s)"

text \<open>\<open>VERSION_PATTERN.findall\<close>: the tokens of the occurrences that \<open>sub\<close> replaces, in order.\<close>

function findall :: "string \<Rightarrow> string list" where
  "findall s =
     (case search VERSION_PATTERN s of
        None \<Rightarrow> []
      | Some (u, m, g, r) \<Rightarrow> g # findall r)"
  by pat_completeness auto
termination
  by (relation "measure length") (auto dest: search_VERSION_PATTERN_shorter)

declare findall.simps [simp del]

text \<open>
  A text with the given occurrences: \<open>u\<close>, then for each pair \<open>(t, u')\<close> the occurrence
  \<open>antigravity/t\<close> followed by the text \<open>u'\<close>.
\<close>

fun text_of :: "string \<Rightarrow> (string \<times> string) list \<Rightarrow> string" where
  "text_of u [] = u"
| "text_of u ((t, u') # ps) = u @ ''antigravity/'' @ t @ text_of u' ps"

text \<open>
  The deterministic reading of the patterns, used in the proofs: \<open>digits_then c\<close> reads
  a maximal run of digits and the character \<open>c\<close>, \<open>token\<close> reads a version token with
  its last number as long as possible, \<open>build\<close> reads \<open>-\<close>, digits and \<open>/\<close>.
\<close>

definition digits_then :: "char \<Rightarrow> string \<Rightarrow> (string \<times> string) option" where
  "digits_then c s =
     (if \<not> starts_with_digit s then None
      else (case dropWhile is_digit s of
              [] \<Rightarrow> None
            | x # r \<Rightarrow> if x = c then Some (takeWhile is_digit s @ [c], r) else None))"

definition token :: "string \<Rightarrow> (string \<times> string) option" where
  "token s =
     (case digits_then (CHR ''.'') s of
        None \<Rightarrow> None
      | Some (m1, r1) \<Rightarrow>
          (case digits_then (CHR ''.'') r1 of
             None \<Rightarrow> None
           | Some (m2, r2) \<Rightarrow>
               if \<not> starts_with_digit r2 then None
               else Some (m1 @ m2 @ takeWhile is_digit r2, dropWhile is_digit r2)))"

definition build :: "string \<Rightarrow> (string \<times> string) option" where
  "build s =
     (case s of
        [] \<Rightarrow> None
      | x # r \<Rightarrow>
          if x = CHR ''-'' then
            (case digits_then (CHR ''/'') r of
               None \<Rightarrow> None
             | Some (m, r') \<Rightarrow> Some (x # m, r'))
          else None)"


section \<open>What the functions leave unchanged\<close>

lemma main_resolve:
  "main a pg w =
     (case get_current_version w of
        (current, w1) \<Rightarrow>
          (case truthy current of
             None \<Rightarrow> (Inr 1, w1)
           | Some cur \<Rightarrow>
               (case resolve_latest a pg (print_out (''Current version: '' @ cur) w1) of
                  (None, w3) \<Rightarrow> (Inr 1, w3)
                | (Some l, w3) \<Rightarrow> main_compare a cur l w3)))"
  unfolding main_def resolve_latest_def Let_def
  by (simp split: prod.splits option.splits)

lemma get_current_version_frame:
  "get_current_version w = (r, w') \<Longrightarrow>
     file_text w' = file_text w \<and> writable w' = writable w \<and> writes w' = writes w \<and>
     stdout w' = stdout w \<and>
     reads w' = (if file_text w = None then reads w else reads w + 1)"
  by (auto simp: get_current_version_def read_text_def print_err_def
           split: option.splits prod.splits)

lemma extract_version_from_url_frame:
  "extract_version_from_url u w = (r, w') \<Longrightarrow>
     file_text w' = file_text w \<and> writable w' = writable w \<and> writes w' = writes w \<and>
     stdout w' = stdout w \<and> reads w' = reads w"
  by (auto simp: extract_version_from_url_def print_err_def split: option.splits prod.splits)

lemma fetch_latest_version_frame:
  "fetch_latest_version pg w = (r, w') \<Longrightarrow>
     file_text w' = file_text w \<and> writable w' = writable w \<and> writes w' = writes w \<and>
     stdout w' = stdout w \<and> reads w' = reads w"
  by (auto simp: fetch_latest_version_def print_err_def
           split: option.splits prod.splits page.splits if_splits)

lemma resolve_latest_frame:
  "resolve_latest a pg w = (r, w') \<Longrightarrow>
     file_text w' = file_text w \<and> writable w' = writable w \<and> writes w' = writes w \<and>
     stdout w' = stdout w \<and> reads w' = reads w"
  unfolding resolve_latest_def
  by (auto split: option.splits prod.splits
           dest: extract_version_from_url_frame fetch_latest_version_frame)

lemma resolve_latest_fst: "fst (resolve_latest a pg w) = fst (resolve_latest a pg w')"
  unfolding resolve_latest_def
  by (auto simp: extract_version_from_url_def fetch_latest_version_def
           split: option.splits prod.splits page.splits)

lemma run_Plus_nonempty: "(m, r) \<in> set (run (Plus a # p) s) \<Longrightarrow> m \<noteq> []"
  by (cases s) (auto split: if_splits)

lemma match_here_group_nonempty:
  assumes "match_here pat s = Some (m, g, r)" "group1 pat = Plus a # p"
  shows "g \<noteq> []"
proof -
  from assms(1) have "(m, g, r) \<in> set (match_all pat s)"
    by (auto simp: match_here_def split: list.splits)
  then obtain r1 r2 where "(g, r2) \<in> set (run (group1 pat) r1)"
    unfolding match_all_def by auto
  with assms(2) show ?thesis
    using run_Plus_nonempty by metis
qed

lemma search_group_nonempty:
  assumes "search pat s = Some (u, m, g, r)" "group1 pat = Plus a # p"
  shows "g \<noteq> []"
  using search_splits [OF assms(1)] match_here_group_nonempty [OF _ assms(2)] by blast

lemma get_current_version_nonempty: "fst (get_current_version w) = Some c \<Longrightarrow> c \<noteq> []"
  by (auto simp: get_current_version_def read_text_def VERSION_PATTERN_def version_items_def
           split: option.splits prod.splits dest!: search_group_nonempty)

lemma get_current_version_truthy:
  "truthy (fst (get_current_version w)) = fst (get_current_version w)"
  using get_current_version_nonempty [of w]
  by (cases "fst (get_current_version w)") (auto simp: truthy_def)

text \<open>A run that reads the current version and resolves a latest one reaches the comparison.\<close>

lemma main_reaches_compare:
  assumes c: "fst (get_current_version w) = Some c"
    and l: "fst (resolve_latest a pg w) = Some l"
  shows "\<exists>w3. main a pg w = main_compare a c l w3 \<and> file_text w3 = file_text w \<and>
           writable w3 = writable w \<and> writes w3 = writes w \<and> reads w3 = reads w + 1 \<and>
           stdout w3 = stdout w @ [''Current version: '' @ c]"
proof -
  obtain w1 where g: "get_current_version w = (Some c, w1)"
    using c by (cases "get_current_version w") auto
  have t: "truthy (Some c) = Some c"
    using get_current_version_truthy [of w] c by simp
  obtain w3 where r: "resolve_latest a pg (print_out (''Current version: '' @ c) w1) = (Some l, w3)"
    using l resolve_latest_fst [of a pg w "print_out (''Current version: '' @ c) w1"]
    by (cases "resolve_latest a pg (print_out (''Current version: '' @ c) w1)") auto
  have m: "main a pg w = main_compare a c l w3"
    unfolding main_resolve using r by (simp add: g t)
  have f: "file_text w \<noteq> None"
    using g by (auto simp: get_current_version_def split: option.splits)
  have "file_text w3 = file_text w \<and> writable w3 = writable w \<and> writes w3 = writes w \<and>
        reads w3 = reads w + 1 \<and> stdout w3 = stdout w @ [''Current version: '' @ c]"
    using resolve_latest_frame [OF r] get_current_version_frame [OF g] f
    by (simp add: print_out_def)
  with m show ?thesis by blast
qed

text \<open>The five ways \<open>update_version\<close> ends on an existing file, and the missing file.\<close>

lemma update_version_missing:
  "file_text w = None \<Longrightarrow> update_version v d w = (Inr False, w)"
  by (simp add: update_version_def)

lemma update_version_template_error:
  "file_text w = Some c \<Longrightarrow> patched v w = None \<Longrightarrow>
     update_version v d w = (Inl Template_error, w\<lparr>reads := reads w + 1\<rparr>)"
  by (simp add: update_version_def patched_def read_text_def)

lemma update_version_unchanged:
  "file_text w = Some c \<Longrightarrow> patched v w = Some c \<Longrightarrow>
     update_version v d w = (Inr True, print_out ''No changes needed'' (w\<lparr>reads := reads w + 1\<rparr>))"
  by (simp add: update_version_def patched_def read_text_def)

lemma update_version_dry_run:
  "file_text w = Some c \<Longrightarrow> patched v w = Some n \<Longrightarrow> n \<noteq> c \<Longrightarrow>
     update_version v True w =
       (Inr True, print_out (''Would update USER_AGENT to: antigravity/'' @ v)
                    (w\<lparr>reads := reads w + 1\<rparr>))"
  by (auto simp: update_version_def patched_def read_text_def)

lemma update_version_written:
  "file_text w = Some c \<Longrightarrow> patched v w = Some n \<Longrightarrow> n \<noteq> c \<Longrightarrow> writable w \<Longrightarrow>
     update_version v False w =
       (Inr True, print_out (''Updated USER_AGENT to: antigravity/'' @ v)
                    (w\<lparr>reads := reads w + 1, file_text := Some n, writes := writes w + 1\<rparr>))"
  by (auto simp: update_version_def patched_def read_text_def write_text_def)

lemma update_version_write_error:
  "file_text w = Some c \<Longrightarrow> patched v w = Some n \<Longrightarrow> n \<noteq> c \<Longrightarrow> \<not> writable w \<Longrightarrow>
     update_version v False w =
       (Inl Write_error, w\<lparr>reads := reads w + 1, writes := writes w + 1\<rparr>)"
  by (auto simp: update_version_def patched_def read_text_def write_text_def)

lemma update_version_frame:
  "update_version v d w = (r, w') \<Longrightarrow>
     writable w' = writable w \<and>
     reads w' = (if file_text w = None then reads w else reads w + 1) \<and>
     writes w \<le> writes w' \<and> writes w' \<le> writes w + 1 \<and>
     (d \<longrightarrow> file_text w' = file_text w \<and> writes w' = writes w)"
  by (auto simp: update_version_def read_text_def write_text_def print_out_def
           split: option.splits prod.splits if_splits)

lemma patched_world: "file_text w' = file_text w \<Longrightarrow> patched v w' = patched v w"
  by (simp add: patched_def)

lemma extract_version_from_url_truthy:
  "truthy (fst (extract_version_from_url u w)) = fst (extract_version_from_url u w)"
  by (auto simp: extract_version_from_url_def truthy_def TARBALL_VERSION_PATTERN_def
                 version_items_def
           split: option.splits dest!: search_group_nonempty)

lemma fetch_latest_version_truthy:
  "truthy (fst (fetch_latest_version pg w)) = fst (fetch_latest_version pg w)"
  by (auto simp: fetch_latest_version_def truthy_def TARBALL_VERSION_PATTERN_def
                 version_items_def
           split: option.splits page.splits dest!: search_group_nonempty)

lemma main_no_current:
  "fst (get_current_version w) = None \<Longrightarrow> main a pg w = (Inr 1, snd (get_current_version w))"
  unfolding main_resolve by (auto simp: truthy_def split: prod.splits)

lemma main_no_latest:
  assumes c: "fst (get_current_version w) = Some c"
    and l: "fst (resolve_latest a pg w) = None"
  shows "\<exists>w3. main a pg w = (Inr 1, w3) \<and> file_text w3 = file_text w \<and>
           writes w3 = writes w \<and> reads w3 = reads w + 1"
proof -
  obtain w1 where g: "get_current_version w = (Some c, w1)"
    using c by (cases "get_current_version w") auto
  have t: "truthy (Some c) = Some c"
    using get_current_version_truthy [of w] c by simp
  obtain w3 where r: "resolve_latest a pg (print_out (''Current version: '' @ c) w1) = (None, w3)"
    using l resolve_latest_fst [of a pg w "print_out (''Current version: '' @ c) w1"]
    by (cases "resolve_latest a pg (print_out (''Current version: '' @ c) w1)") auto
  have m: "main a pg w = (Inr 1, w3)"
    unfolding main_resolve using r by (simp add: g t)
  have f: "file_text w \<noteq> None"
    using g by (auto simp: get_current_version_def split: option.splits)
  have "file_text w3 = file_text w \<and> writes w3 = writes w \<and> reads w3 = reads w + 1"
    using resolve_latest_frame [OF r] get_current_version_frame [OF g] f
    by (simp add: print_out_def)
  with m show ?thesis by blast
qed

lemma main_compare_update:
  "c \<noteq> l \<Longrightarrow> \<not> check a \<Longrightarrow>
     main_compare a c l w =
       (case update_version l (dry_run a) (print_out (''Latest version:  '' @ l) w) of
          (Inl e, w2) \<Rightarrow> (Inl e, w2)
        | (Inr ok, w2) \<Rightarrow> if ok then (Inr 0, w2) else (Inr 1, w2))"
  by (simp add: main_compare_def Let_def)

lemma resolve_latest_version:
  "truthy (version a) = Some v \<Longrightarrow> fst (resolve_latest a pg w) = Some v"
  by (simp add: resolve_latest_def)

lemma resolve_latest_url:
  "truthy (version a) = None \<Longrightarrow> truthy (url a) = Some u \<Longrightarrow>
     fst (resolve_latest a pg w) = fst (extract_version_from_url u w)"
  using extract_version_from_url_truthy [of u w]
  by (cases "extract_version_from_url u w") (simp add: resolve_latest_def)

lemma resolve_latest_page:
  "truthy (version a) = None \<Longrightarrow> truthy (url a) = None \<Longrightarrow>
     fst (resolve_latest a pg w) = fst (fetch_latest_version pg w)"
  using fetch_latest_version_truthy [of pg w]
  by (cases "fetch_latest_version pg w") (simp add: resolve_latest_def)

lemma main_latest_cases:
  assumes c: "fst (get_current_version w) = Some c"
  shows "case fst (resolve_latest a pg w) of
           None \<Rightarrow> fst (main a pg w) = Inr 1
         | Some l \<Rightarrow> \<exists>w3. main a pg w = main_compare a c l w3 \<and> file_text w3 = file_text w"
proof (cases "fst (resolve_latest a pg w)")
  case None
  with main_no_latest [OF c None] show ?thesis by auto
next
  case (Some l)
  with main_reaches_compare [OF c Some] show ?thesis by auto
qed

lemma main_compare_frame:
  "reads (snd (main_compare a c l w)) \<le> reads w + 1 \<and>
   writes (snd (main_compare a c l w)) \<le> writes w + 1 \<and>
   (check a \<or> dry_run a \<or> c = l \<longrightarrow>
      file_text (snd (main_compare a c l w)) = file_text w \<and>
      writes (snd (main_compare a c l w)) = writes w)"
proof -
  let ?w = "print_out (''Latest version:  '' @ l) w"
  obtain r w' where u: "update_version l (dry_run a) ?w = (r, w')"
    by (cases "update_version l (dry_run a) ?w")
  from update_version_frame [OF u] show ?thesis
    using u
    by (cases r) (auto simp: main_compare_def Let_def print_out_def)
qed

text \<open>What a whole run does to the tracked file and to the counters.\<close>

lemma main_frame:
  "reads (snd (main a pg w)) \<le> reads w + 2 \<and>
   writes (snd (main a pg w)) \<le> writes w + 1 \<and>
   (check a \<or> dry_run a \<longrightarrow>
      file_text (snd (main a pg w)) = file_text w \<and> writes (snd (main a pg w)) = writes w)"
proof (cases "fst (get_current_version w)")
  case None
  obtain r w1 where g: "get_current_version w = (r, w1)"
    by (cases "get_current_version w")
  from get_current_version_frame [OF g] main_no_current [OF None, of a pg] g show ?thesis
    by (auto split: if_splits)
next
  case (Some c)
  show ?thesis
  proof (cases "fst (resolve_latest a pg w)")
    case None
    from main_no_latest [OF Some None] show ?thesis
      by auto
  next
    case l: (Some l)
    from main_reaches_compare [OF Some l] obtain w3
      where m: "main a pg w = main_compare a c l w3" and "file_text w3 = file_text w"
        and "writes w3 = writes w" and "reads w3 = reads w + 1"
      by blast
    with main_compare_frame [of a c l w3] show ?thesis
      by auto
  qed
qed


section \<open>The backtracking matcher on the two patterns\<close>

lemma run_lits_only: "(m, r) \<in> set (run (lits l) s) \<Longrightarrow> m = l \<and> s = l @ r"
proof (induction l arbitrary: s m)
  case Nil
  then show ?case by (simp add: lits_def)
next
  case (Cons a l)
  from Cons.prems show ?case
    by (cases s) (auto simp: lits_def split: if_splits dest!: Cons.IH [unfolded lits_def])
qed

lemma apfst_append: "apfst ((@) a) (apfst ((@) b) x) = apfst ((@) (a @ b)) x"
  by (cases x) simp

lemma apfst_Cons: "apfst ((#) a) (apfst ((@) b) x) = apfst ((@) (a # b)) x"
  by (cases x) simp

lemma digits_then_Cons:
  "is_digit x \<Longrightarrow> starts_with_digit xs \<Longrightarrow>
     digits_then c (x # xs) = map_option (apfst ((#) x)) (digits_then c xs)"
  by (cases "dropWhile is_digit xs") (simp_all add: digits_then_def del: dropWhile_eq_Nil_conv)

lemma run_lits_append: "run (lits l @ p) (l @ r) = map (apfst ((@) l)) (run p r)"
  by (induction l) (auto simp: lits_def apfst_def map_prod_def split_def)

lemma run_Plus_Digit_Lit:
  assumes "\<not> is_digit c"
  shows "run (Plus Digit # One (Lit c) # p) s =
     (case digits_then c s of
        None \<Rightarrow> []
      | Some (m, r) \<Rightarrow> map (apfst ((@) m)) (run p r))"
proof (induction s)
  case Nil
  then show ?case by (simp add: digits_then_def)
next
  case (Cons x xs)
  show ?case
  proof (cases "is_digit x")
    case False
    then show ?thesis by (simp add: digits_then_def)
  next
    case True
    show ?thesis
    proof (cases xs)
      case Nil
      with True show ?thesis by (simp add: digits_then_def)
    next
      case (Cons y ys)
      show ?thesis
      proof (cases "is_digit y")
        case d: True
        with True assms have e: "run (One (Lit c) # p) xs = []"
          using Cons by auto
        have sd: "starts_with_digit xs"
          using d Cons by simp
        show ?thesis
          using True e Cons.IH
          by (cases "digits_then c xs")
             (auto simp: digits_then_Cons [OF True sd] apfst_Cons)
      next
        case nd: False
        then have "digits_then c xs = None"
          using Cons by (simp add: digits_then_def)
        with Cons.IH have "run (Plus Digit # One (Lit c) # p) xs = []"
          by simp
        with True nd Cons show ?thesis
          by (auto simp: digits_then_def apfst_def map_prod_def split_def)
      qed
    qed
  qed
qed

lemma run_Plus_Digit_none: "\<not> starts_with_digit s \<Longrightarrow> run (Plus Digit # p) s = []"
  by (cases s) auto

lemma run_Plus_Digit_first:
  "starts_with_digit s \<Longrightarrow>
     \<exists>bs. run [Plus Digit] s = (takeWhile is_digit s, dropWhile is_digit s) # bs \<and>
          (\<forall>(m, r) \<in> set bs. starts_with_digit r)"
proof (induction s)
  case Nil
  then show ?case by simp
next
  case (Cons x xs)
  then have x: "is_digit x" by simp
  show ?case
  proof (cases "starts_with_digit xs")
    case True
    from Cons.IH [OF True] obtain bs
      where bs: "run [Plus Digit] xs = (takeWhile is_digit xs, dropWhile is_digit xs) # bs"
        and r: "\<forall>(m, r) \<in> set bs. starts_with_digit r"
      by blast
    have "run [Plus Digit] (x # xs) =
        (takeWhile is_digit (x # xs), dropWhile is_digit (x # xs)) #
        (map (apfst ((#) x)) bs @ [([x], xs)])"
      using x bs by simp
    moreover have "\<forall>(m, r) \<in> set (map (apfst ((#) x)) bs @ [([x], xs)]). starts_with_digit r"
      using r True by auto
    ultimately show ?thesis by blast
  next
    case False
    then have "run [Plus Digit] xs = []"
      by (rule run_Plus_Digit_none)
    moreover have "takeWhile is_digit xs = []" "dropWhile is_digit xs = xs"
      using False by (cases xs; simp)+
    ultimately have "run [Plus Digit] (x # xs) =
        [(takeWhile is_digit (x # xs), dropWhile is_digit (x # xs))]"
      using x by simp
    then show ?thesis by simp
  qed
qed

lemma run_Plus_Digit_members:
  "(m, r) \<in> set (run [Plus Digit] s) \<Longrightarrow> digit_string m"
proof (induction s arbitrary: m)
  case Nil
  then show ?case by simp
next
  case (Cons x xs)
  then show ?case
    by (auto simp: digit_string_def split: if_splits)
qed

lemma run_version_items:
  "run version_items s =
     (case digits_then (CHR ''.'') s of
        None \<Rightarrow> []
      | Some (m1, r1) \<Rightarrow>
          (case digits_then (CHR ''.'') r1 of
             None \<Rightarrow> []
           | Some (m2, r2) \<Rightarrow> map (apfst ((@) (m1 @ m2))) (run [Plus Digit] r2)))"
proof -
  have nd: "\<not> is_digit (CHR ''.'')"
    by (simp add: is_digit_def)
  show ?thesis
    unfolding version_items_def
    by (simp add: run_Plus_Digit_Lit [OF nd] apfst_append split: option.splits prod.splits)
qed

lemma hd_run_version_items:
  "(case run version_items s of [] \<Rightarrow> None | x # _ \<Rightarrow> Some x) = token s"
proof (cases "digits_then (CHR ''.'') s")
  case None
  then show ?thesis by (simp add: run_version_items token_def)
next
  case (Some a)
  obtain m1 r1 where a: "a = (m1, r1)" by (cases a)
  show ?thesis
  proof (cases "digits_then (CHR ''.'') r1")
    case None
    with Some a show ?thesis by (simp add: run_version_items token_def)
  next
    case b: (Some b)
    obtain m2 r2 where b': "b = (m2, r2)" by (cases b)
    show ?thesis
    proof (cases "starts_with_digit r2")
      case True
      from run_Plus_Digit_first [OF True] obtain bs
        where "run [Plus Digit] r2 = (takeWhile is_digit r2, dropWhile is_digit r2) # bs"
        by blast
      with Some a b b' True show ?thesis
        by (simp add: run_version_items token_def)
    next
      case False
      with Some a b b' run_Plus_Digit_none [OF False, of "[]"] show ?thesis
        by (simp add: run_version_items token_def)
    qed
  qed
qed

lemma match_all_VERSION_PATTERN:
  "match_all VERSION_PATTERN (''antigravity/'' @ s) =
     map (\<lambda>(g, r). (''antigravity/'' @ g, g, r)) (run version_items s)"
proof -
  have "run (lits ''antigravity/'') (''antigravity/'' @ s) = [(''antigravity/'', s)]"
    using run_lits_append [of "''antigravity/''" "[]" s] by simp
  then show ?thesis
    unfolding match_all_def VERSION_PATTERN_def
    by (simp add: split_def)
qed

lemma match_here_VERSION_PATTERN:
  "match_here VERSION_PATTERN (''antigravity/'' @ s) =
     (case token s of None \<Rightarrow> None | Some (g, r) \<Rightarrow> Some (''antigravity/'' @ g, g, r))"
proof (cases "run version_items s")
  case Nil
  with hd_run_version_items [of s] have "token s = None" by simp
  with Nil show ?thesis
    unfolding match_here_def match_all_VERSION_PATTERN by simp
next
  case (Cons a as)
  obtain g r where a: "a = (g, r)" by (cases a)
  with Cons hd_run_version_items [of s] have "token s = Some (g, r)" by simp
  with Cons a show ?thesis
    unfolding match_here_def match_all_VERSION_PATTERN by simp
qed

lemma match_here_VERSION_PATTERN_prefix:
  assumes "match_here VERSION_PATTERN s = Some x"
  shows "\<exists>r. s = ''antigravity/'' @ r"
proof -
  from assms have "x \<in> set (match_all VERSION_PATTERN s)"
    by (auto simp: match_here_def split: list.splits)
  then obtain m1 r1 where "(m1, r1) \<in> set (run (lits ''antigravity/'') s)"
    unfolding match_all_def VERSION_PATTERN_def by auto
  from run_lits_only [OF this] show ?thesis by blast
qed

lemma takeWhile_digits_append:
  "list_all is_digit ds \<Longrightarrow> \<not> starts_with_digit r \<Longrightarrow>
     takeWhile is_digit (ds @ r) = ds \<and> dropWhile is_digit (ds @ r) = r"
  by (induction ds) (cases r; simp)+

lemma starts_with_digit_append:
  "digit_string ds \<Longrightarrow> starts_with_digit (ds @ r)"
  by (cases ds) (auto simp: digit_string_def)

lemma digits_then_append:
  assumes "digit_string ds" "\<not> is_digit c"
  shows "digits_then c (ds @ c # r) = Some (ds @ [c], r)"
proof -
  have "list_all is_digit ds" using assms(1) by (simp add: digit_string_def)
  moreover have "\<not> starts_with_digit (c # r)" using assms(2) by simp
  ultimately have "takeWhile is_digit (ds @ c # r) = ds \<and> dropWhile is_digit (ds @ c # r) = c # r"
    by (rule takeWhile_digits_append)
  with starts_with_digit_append [OF assms(1), of "c # r"] show ?thesis
    by (simp add: digits_then_def)
qed

lemma token_append:
  assumes "digit_string d1" "digit_string d2" "digit_string d3" "\<not> starts_with_digit r"
  shows "token (d1 @ ''.'' @ d2 @ ''.'' @ d3 @ r) = Some (d1 @ ''.'' @ d2 @ ''.'' @ d3, r)"
proof -
  have nd: "\<not> is_digit (CHR ''.'')" by (simp add: is_digit_def)
  have "list_all is_digit d3" using assms(3) by (simp add: digit_string_def)
  from takeWhile_digits_append [OF this assms(4)] starts_with_digit_append [OF assms(3), of r]
    digits_then_append [OF assms(1) nd, of "d2 @ ''.'' @ d3 @ r"]
    digits_then_append [OF assms(2) nd, of "d3 @ r"]
  show ?thesis
    by (simp add: token_def)
qed

lemma digits_then_Some:
  assumes "digits_then c s = Some (m, r)"
  shows "\<exists>ds. digit_string ds \<and> m = ds @ [c] \<and> s = m @ r"
proof -
  from assms have sd: "starts_with_digit s" and d: "dropWhile is_digit s = c # r"
    and m: "m = takeWhile is_digit s @ [c]"
    by (auto simp: digits_then_def split: if_splits list.splits)
  have "digit_string (takeWhile is_digit s)"
    using sd by (cases s) (auto simp: digit_string_def list_all_iff dest: set_takeWhileD)
  moreover have "s = m @ r"
    using m d takeWhile_dropWhile_id [of is_digit s] by simp
  ultimately show ?thesis using m by blast
qed

lemma not_starts_with_digit_dropWhile: "\<not> starts_with_digit (dropWhile is_digit s)"
  by (induction s) auto

lemma token_Some:
  assumes "token s = Some (g, r)"
  shows "\<exists>d1 d2 d3. digit_string d1 \<and> digit_string d2 \<and> digit_string d3 \<and>
           g = d1 @ ''.'' @ d2 @ ''.'' @ d3 \<and> s = g @ r \<and> \<not> starts_with_digit r"
proof -
  from assms obtain m1 r1 m2 r2
    where a: "digits_then (CHR ''.'') s = Some (m1, r1)"
      and b: "digits_then (CHR ''.'') r1 = Some (m2, r2)"
      and sd: "starts_with_digit r2"
      and g: "g = m1 @ m2 @ takeWhile is_digit r2" and r: "r = dropWhile is_digit r2"
    by (auto simp: token_def split: option.splits if_splits)
  from digits_then_Some [OF a] obtain d1
    where d1: "digit_string d1" "m1 = d1 @ ''.''" "s = m1 @ r1" by auto
  from digits_then_Some [OF b] obtain d2
    where d2: "digit_string d2" "m2 = d2 @ ''.''" "r1 = m2 @ r2" by auto
  have d3: "digit_string (takeWhile is_digit r2)"
    using sd by (cases r2) (auto simp: digit_string_def list_all_iff dest: set_takeWhileD)
  have "s = g @ r"
    using d1 d2 g r takeWhile_dropWhile_id [of is_digit r2] by simp
  with d1 d2 d3 g r not_starts_with_digit_dropWhile [of r2] show ?thesis
    by (intro exI [of _ d1] exI [of _ d2] exI [of _ "takeWhile is_digit r2"]) simp
qed

lemma is_version_shape:
  assumes "is_version x"
  shows "\<exists>d1 d2 d3. digit_string d1 \<and> digit_string d2 \<and> digit_string d3 \<and>
           x = d1 @ ''.'' @ d2 @ ''.'' @ d3"
proof -
  from assms have mem: "(x, []) \<in> set (run version_items x)"
    by (simp add: is_version_def)
  obtain m1 r1 where a: "digits_then (CHR ''.'') x = Some (m1, r1)"
    using mem by (cases "digits_then (CHR ''.'') x") (auto simp: run_version_items)
  obtain m2 r2 where b: "digits_then (CHR ''.'') r1 = Some (m2, r2)"
    using mem a by (cases "digits_then (CHR ''.'') r1") (auto simp: run_version_items)
  have c: "(x, []) \<in> set (map (apfst ((@) (m1 @ m2))) (run [Plus Digit] r2))"
    using mem a b by (simp add: run_version_items)
  then obtain m where m: "(m, []) \<in> set (run [Plus Digit] r2)" and x: "x = m1 @ m2 @ m"
    by auto
  from digits_then_Some [OF a] obtain d1 where d1: "digit_string d1" "m1 = d1 @ ''.''" by auto
  from digits_then_Some [OF b] obtain d2 where d2: "digit_string d2" "m2 = d2 @ ''.''" by auto
  from run_Plus_Digit_members [OF m] d1 d2 x show ?thesis
    by (intro exI [of _ d1] exI [of _ d2] exI [of _ m]) simp
qed

lemma is_version_token:
  assumes "is_version x" "\<not> starts_with_digit r"
  shows "token (x @ r) = Some (x, r)"
proof -
  from is_version_shape [OF assms(1)] obtain d1 d2 d3
    where "digit_string d1" "digit_string d2" "digit_string d3" "x = d1 @ ''.'' @ d2 @ ''.'' @ d3"
    by blast
  with token_append [of d1 d2 d3 r] assms(2) show ?thesis by simp
qed

lemma token_is_version:
  assumes "token s = Some (g, r)"
  shows "is_version g"
proof -
  from token_Some [OF assms] obtain d1 d2 d3
    where d: "digit_string d1" "digit_string d2" "digit_string d3"
      and g: "g = d1 @ ''.'' @ d2 @ ''.'' @ d3"
    by blast
  have "token (g @ []) = Some (g, [])"
    unfolding g using token_append [OF d, of "[]"] by simp
  then have "(case run version_items g of [] \<Rightarrow> None | x # _ \<Rightarrow> Some x) = Some (g, [])"
    by (simp add: hd_run_version_items)
  then show ?thesis
    by (auto simp: is_version_def split: list.splits)
qed

lemma match_here_VERSION_PATTERN_version:
  "is_version x \<Longrightarrow> \<not> starts_with_digit r \<Longrightarrow>
     match_here VERSION_PATTERN (''antigravity/'' @ x @ r) = Some (''antigravity/'' @ x, x, r)"
  unfolding match_here_VERSION_PATTERN using is_version_token [of x r] by simp

lemma match_here_VERSION_PATTERN_Some:
  assumes "match_here VERSION_PATTERN s = Some (m, g, r)"
  shows "m = ''antigravity/'' @ g \<and> s = m @ r \<and> is_version g \<and> \<not> starts_with_digit r"
proof -
  from match_here_VERSION_PATTERN_prefix [OF assms] obtain s' where s: "s = ''antigravity/'' @ s'"
    by blast
  from assms have "(case token s' of None \<Rightarrow> None
      | Some (g, r) \<Rightarrow> Some (''antigravity/'' @ g, g, r)) = Some (m, g, r)"
    unfolding s match_here_VERSION_PATTERN .
  then have t: "token s' = Some (g, r)" and m: "m = ''antigravity/'' @ g"
    by (auto split: option.splits prod.splits)
  from token_Some [OF t] token_is_version [OF t] s m show ?thesis
    by auto
qed

lemma search_here: "match_here pat s = Some (m, g, r) \<Longrightarrow> search pat s = Some ([], m, g, r)"
  by (simp add: search.simps)

lemma search_Cons:
  "match_here pat (c # cs) = None \<Longrightarrow>
     search pat (c # cs) = map_option (\<lambda>(u, x). (c # u, x)) (search pat cs)"
  by (simp add: search.simps)

lemma search_None_here: "search pat s = None \<Longrightarrow> match_here pat s = None"
  by (cases "match_here pat s") (auto simp: search.simps)

lemma search_append:
  "no_match_before pat u s \<Longrightarrow>
     search pat (u @ s) = map_option (\<lambda>(u', x). (u @ u', x)) (search pat s)"
proof (induction u)
  case Nil
  show ?case by (cases "search pat s") auto
next
  case (Cons c u)
  then have "match_here pat (c # u @ s) = None" and "no_match_before pat u s"
    by simp_all
  with Cons.IH show ?case
    by (cases "search pat s") (auto simp: search_Cons)
qed

lemma search_earliest:
  "search pat s = Some (u, m, g, r) \<Longrightarrow> no_match_before pat u (m @ r)"
proof (induction s arbitrary: u)
  case Nil
  then show ?case
    by (auto simp: search.simps split: option.splits)
next
  case (Cons c cs)
  show ?case
  proof (cases "match_here pat (c # cs)")
    case None
    with Cons.prems obtain u' where u: "u = c # u'" and s: "search pat cs = Some (u', m, g, r)"
      by (auto simp: search_Cons)
    from search_splits [OF s] have "cs = u' @ m @ r" by simp
    with None Cons.IH [OF s] u show ?thesis by simp
  next
    case (Some x)
    with Cons.prems have "u = []"
      by (auto simp: search.simps split: prod.splits)
    then show ?thesis by simp
  qed
qed

lemma takeWhile_extend: "\<not> P c \<Longrightarrow> takeWhile P (s @ c # z) = takeWhile P s"
  by (induction s) auto

lemma dropWhile_extend: "\<not> P c \<Longrightarrow> dropWhile P (s @ c # z) = dropWhile P s @ c # z"
  by (induction s) auto

lemma starts_with_digit_extend: "\<not> is_digit c \<Longrightarrow> starts_with_digit (s @ c # z) = starts_with_digit s"
  by (cases s) auto

lemma digits_then_extend:
  assumes "\<not> is_digit c'" "c' \<noteq> c"
  shows "digits_then c (s @ c' # z) = map_option (apsnd (\<lambda>r. r @ c' # z)) (digits_then c s)"
  using assms
  by (cases "dropWhile is_digit s")
     (simp_all add: digits_then_def takeWhile_extend dropWhile_extend starts_with_digit_extend
               del: dropWhile_eq_Nil_conv)

lemma token_extend:
  assumes "\<not> is_digit c" "c \<noteq> CHR ''.''"
  shows "token (s @ c # z) = map_option (apsnd (\<lambda>r. r @ c # z)) (token s)"
proof (cases "digits_then (CHR ''.'') s")
  case None
  then show ?thesis
    by (simp add: token_def digits_then_extend [OF assms])
next
  case (Some a)
  obtain m1 r1 where a: "a = (m1, r1)" by (cases a)
  show ?thesis
  proof (cases "digits_then (CHR ''.'') r1")
    case None
    with Some a show ?thesis
      by (simp add: token_def digits_then_extend [OF assms])
  next
    case b: (Some b)
    obtain m2 r2 where "b = (m2, r2)" by (cases b)
    with Some a b show ?thesis
      using assms(1)
      by (simp add: token_def digits_then_extend [OF assms] takeWhile_extend
            dropWhile_extend starts_with_digit_extend)
  qed
qed

lemma antigravity_overlap:
  assumes e: "v @ ''antigravity/'' @ z = ''antigravity/'' @ r" and v: "v \<noteq> []"
  shows "\<exists>v'. v = ''antigravity/'' @ v'"
proof (cases "length v < 12")
  case True
  let ?i = "11 - length v"
  have i: "?i < 11" using v True by (cases v) auto
  have "(v @ ''antigravity/'' @ z) ! 11 = (''antigravity/'' @ z) ! ?i"
    using True by (simp add: nth_append)
  also have "\<dots> = ''antigravity'' ! ?i"
    using i by (simp add: nth_append nth_Cons')
  finally have l: "(v @ ''antigravity/'' @ z) ! 11 = ''antigravity'' ! ?i" .
  have "''antigravity'' ! ?i \<in> set ''antigravity''"
    using i by (intro nth_mem) simp
  then have "''antigravity'' ! ?i \<noteq> CHR ''/''"
    by auto
  moreover have "(''antigravity/'' @ r) ! 11 = CHR ''/''"
    by simp
  ultimately show ?thesis
    using l e by simp
next
  case False
  from e have "take 12 (v @ ''antigravity/'' @ z) = take 12 (''antigravity/'' @ r)"
    by simp
  with False have "take 12 v = ''antigravity/''"
    by simp
  then have "v = ''antigravity/'' @ drop 12 v"
    by (metis append_take_drop_id)
  then show ?thesis ..
qed

lemma match_here_VERSION_PATTERN_extend:
  assumes "v \<noteq> []"
  shows "(match_here VERSION_PATTERN (v @ ''antigravity/'' @ z) = None) =
         (match_here VERSION_PATTERN v = None)"
proof (cases "\<exists>v'. v = ''antigravity/'' @ v'")
  case True
  then obtain v' where v: "v = ''antigravity/'' @ v'" ..
  have t: "token (v' @ ''antigravity/'' @ z) =
      map_option (apsnd (\<lambda>r. r @ ''antigravity/'' @ z)) (token v')"
    using token_extend [of "CHR ''a''" v' "''ntigravity/'' @ z"] by (simp add: is_digit_def)
  have "match_here VERSION_PATTERN (v @ ''antigravity/'' @ z) =
      match_here VERSION_PATTERN (''antigravity/'' @ (v' @ ''antigravity/'' @ z))"
    by (simp add: v)
  then show ?thesis
    unfolding v match_here_VERSION_PATTERN t
    by (cases "token v'") (auto split: prod.splits)
next
  case False
  have "match_here VERSION_PATTERN v = None"
    using False match_here_VERSION_PATTERN_prefix [of v] by (cases "match_here VERSION_PATTERN v") auto
  moreover have "match_here VERSION_PATTERN (v @ ''antigravity/'' @ z) = None"
  proof (cases "match_here VERSION_PATTERN (v @ ''antigravity/'' @ z)")
    case None
    then show ?thesis .
  next
    case (Some x)
    from match_here_VERSION_PATTERN_prefix [OF Some] obtain r
      where "v @ ''antigravity/'' @ z = ''antigravity/'' @ r" ..
    from antigravity_overlap [OF this assms] False show ?thesis by blast
  qed
  ultimately show ?thesis by simp
qed

lemma no_match_before_VERSION_PATTERN:
  "no_match_before VERSION_PATTERN u (''antigravity/'' @ z) =
     (\<forall>i < length u. match_here VERSION_PATTERN (drop i u) = None)"
proof (induction u)
  case Nil
  show ?case by simp
next
  case (Cons c u)
  have "match_here VERSION_PATTERN (c # u @ ''antigravity/'' @ z) = None \<longleftrightarrow>
        match_here VERSION_PATTERN (c # u) = None"
    using match_here_VERSION_PATTERN_extend [of "c # u" z] by simp
  with Cons.IH show ?case
    by (auto simp: less_Suc_eq_0_disj)
qed

lemma search_None_drop:
  "search pat s = None \<Longrightarrow> i \<le> length s \<Longrightarrow> match_here pat (drop i s) = None"
proof (induction s arbitrary: i)
  case Nil
  then show ?case by (simp add: search_None_here)
next
  case (Cons c cs)
  from Cons.prems(1) have h: "match_here pat (c # cs) = None"
    by (rule search_None_here)
  with Cons.prems(1) have "search pat cs = None"
    by (simp add: search_Cons)
  with Cons.IH Cons.prems(2) h show ?case
    by (cases i) auto
qed

lemma search_None_no_match_before:
  "search VERSION_PATTERN u = None \<Longrightarrow> no_match_before VERSION_PATTERN u (''antigravity/'' @ z)"
  unfolding no_match_before_VERSION_PATTERN
  by (auto intro: search_None_drop)

lemma sub_loop_no_match: "search VERSION_PATTERN s = None \<Longrightarrow> sub_loop ps s = s"
  by (subst sub_loop.simps) simp

lemma sub_loop_match:
  "search VERSION_PATTERN s = Some (u, m, g, r) \<Longrightarrow>
     sub_loop ps s = u @ expand ps m g @ sub_loop ps r"
  by (subst sub_loop.simps) simp

lemma search_occurrence:
  assumes "no_match_before VERSION_PATTERN u (''antigravity/'' @ x @ r)" "is_version x"
    "\<not> starts_with_digit r"
  shows "search VERSION_PATTERN (u @ ''antigravity/'' @ x @ r) = Some (u, ''antigravity/'' @ x, x, r)"
  using search_append [OF assms(1)]
    search_here [OF match_here_VERSION_PATTERN_version [OF assms(2,3)]]
  by simp

lemma search_VERSION_PATTERN_Some:
  assumes "search VERSION_PATTERN s = Some (u, m, g, r)"
  shows "m = ''antigravity/'' @ g \<and> s = u @ ''antigravity/'' @ g @ r \<and> is_version g \<and>
         \<not> starts_with_digit r \<and> no_match_before VERSION_PATTERN u (''antigravity/'' @ g @ r)"
  using search_splits [OF assms] search_earliest [OF assms]
    match_here_VERSION_PATTERN_Some [of "m @ r" m g r]
  by auto

lemma tokenize_plain: "CHR 0x5C \<notin> set t \<Longrightarrow> tokenize t = Some (map Ch t)"
  by (induction t rule: tokenize.induct) auto

lemma parse_tokens_plain: "parse_tokens n (map Ch t) = Some (map Text t)"
  by (induction t) auto

lemma parse_template_plain: "CHR 0x5C \<notin> set t \<Longrightarrow> parse_template n t = Some (map Text t)"
  by (simp add: parse_template_def tokenize_plain parse_tokens_plain)

lemma expand_plain: "expand (map Text t) m g = t"
  by (induction t) auto

lemma digit_string_no_backslash: "digit_string d \<Longrightarrow> CHR 0x5C \<notin> set d"
proof
  assume d: "digit_string d" and "CHR 0x5C \<in> set d"
  then have "is_digit (CHR 0x5C)"
    by (simp add: digit_string_def list_all_iff)
  then show False
    by (simp add: is_digit_def)
qed

lemma is_version_no_backslash: "is_version x \<Longrightarrow> CHR 0x5C \<notin> set x"
  using is_version_shape [of x] by (auto dest: digit_string_no_backslash)

lemma VERSION_PATTERN_sub_plain:
  "CHR 0x5C \<notin> set v \<Longrightarrow>
     VERSION_PATTERN_sub (''antigravity/'' @ v) s =
       Some (sub_loop (map Text (''antigravity/'' @ v)) s)"
  using parse_template_plain [of "''antigravity/'' @ v" 1]
  by (simp add: VERSION_PATTERN_sub_def)

lemma sub_loop_plain_match:
  "search VERSION_PATTERN s = Some (u, m, g, r) \<Longrightarrow>
     sub_loop (map Text t) s = u @ t @ sub_loop (map Text t) r"
  by (simp add: sub_loop_match expand_plain)

lemma sub_loop_starts_with_digit:
  "starts_with_digit (sub_loop (map Text (''antigravity/'' @ v)) s) = starts_with_digit s"
proof (cases "search VERSION_PATTERN s")
  case None
  then show ?thesis by (simp add: sub_loop_no_match)
next
  case (Some a)
  obtain u m g r where a: "a = (u, m, g, r)" by (cases a)
  from Some a search_VERSION_PATTERN_Some [of s u m g r]
  have s: "s = u @ ''antigravity/'' @ g @ r" by simp
  have "sub_loop (map Text (''antigravity/'' @ v)) s =
      u @ (''antigravity/'' @ v) @ sub_loop (map Text (''antigravity/'' @ v)) r"
    using Some a by (simp only: sub_loop_plain_match)
  then show ?thesis
    by (cases u) (simp_all add: s is_digit_def)
qed

lemma search_after_sub:
  assumes x: "is_version x" and s: "search VERSION_PATTERN s = Some (u, m, g, r)"
  shows "\<exists>r'. search VERSION_PATTERN (sub_loop (map Text (''antigravity/'' @ x)) s) =
           Some (u, ''antigravity/'' @ x, x, r')"
proof -
  let ?ps = "map Text (''antigravity/'' @ x)"
  from search_VERSION_PATTERN_Some [OF s]
  have r: "\<not> starts_with_digit r"
    and n: "no_match_before VERSION_PATTERN u (''antigravity/'' @ g @ r)"
    by simp_all
  have sub: "sub_loop ?ps s = u @ ''antigravity/'' @ x @ sub_loop ?ps r"
    using sub_loop_plain_match [OF s, of "''antigravity/'' @ x"] by simp
  have r': "\<not> starts_with_digit (sub_loop ?ps r)"
    using r sub_loop_starts_with_digit [of x r] by simp
  have n': "no_match_before VERSION_PATTERN u (''antigravity/'' @ x @ sub_loop ?ps r)"
    using n unfolding no_match_before_VERSION_PATTERN .
  from search_occurrence [OF n' x r'] sub show ?thesis
    by simp
qed

lemma starts_with_digit_text_of:
  "\<not> starts_with_digit u \<Longrightarrow> \<not> starts_with_digit (text_of u ps)"
  by (cases ps; cases u) (auto simp: is_digit_def)

lemma search_text_of:
  assumes "search VERSION_PATTERN u = None" "is_version t" "\<not> starts_with_digit u'"
  shows "search VERSION_PATTERN (text_of u ((t, u') # ps)) =
           Some (u, ''antigravity/'' @ t, t, text_of u' ps)"
  using search_occurrence [OF search_None_no_match_before [OF assms(1)] assms(2)
      starts_with_digit_text_of [OF assms(3)], of ps]
  by simp

lemma sub_loop_text_of:
  assumes "search VERSION_PATTERN u = None"
    and "\<forall>(t, u') \<in> set ps. is_version t \<and> search VERSION_PATTERN u' = None \<and> \<not> starts_with_digit u'"
  shows "sub_loop (map Text (''antigravity/'' @ v)) (text_of u ps) =
           text_of u (map (\<lambda>(t, u'). (v, u')) ps)"
  using assms
proof (induction ps arbitrary: u)
  case Nil
  then show ?case by (simp add: sub_loop_no_match)
next
  case (Cons p ps)
  obtain t u' where p: "p = (t, u')" by (cases p)
  from Cons.prems(2) p have t: "is_version t" and u': "search VERSION_PATTERN u' = None"
    and d: "\<not> starts_with_digit u'"
    and rest: "\<forall>(t, u') \<in> set ps. is_version t \<and> search VERSION_PATTERN u' = None \<and> \<not> starts_with_digit u'"
    by auto
  from sub_loop_plain_match [OF search_text_of [OF Cons.prems(1) t d, of ps], of "''antigravity/'' @ v"]
    Cons.IH [OF u' rest] p
  show ?case by simp
qed

lemma sub_loop_same:
  "\<forall>t \<in> set (findall s). t = v \<Longrightarrow> sub_loop (map Text (''antigravity/'' @ v)) s = s"
proof (induction "length s" arbitrary: s rule: less_induct)
  case less
  show ?case
  proof (cases "search VERSION_PATTERN s")
    case None
    then show ?thesis by (simp add: sub_loop_no_match)
  next
    case (Some a)
    obtain u m g r where a: "a = (u, m, g, r)" by (cases a)
    with Some have s: "search VERSION_PATTERN s = Some (u, m, g, r)" by simp
    have f: "findall s = g # findall r"
      using s by (subst findall.simps) simp
    with less.prems have g: "g = v" and r: "\<forall>t \<in> set (findall r). t = v"
      by simp_all
    from search_VERSION_PATTERN_shorter [OF s] less.hyps r
    have "sub_loop (map Text (''antigravity/'' @ v)) r = r" by blast
    with sub_loop_plain_match [OF s, of "''antigravity/'' @ v"] g
      search_VERSION_PATTERN_Some [OF s]
    show ?thesis by simp
  qed
qed

lemma concat_map_Nil: "(\<forall>x \<in> set xs. f x = []) \<Longrightarrow> concat (map f xs) = []"
  by (induction xs) auto

lemma run_after_TARBALL:
  "run (after TARBALL_VERSION_PATTERN) s = (case build s of None \<Rightarrow> [] | Some x \<Rightarrow> [x])"
proof -
  have nd: "\<not> is_digit (CHR ''/'')"
    by (simp add: is_digit_def)
  show ?thesis
    by (cases s)
       (auto simp: TARBALL_VERSION_PATTERN_def build_def run_Plus_Digit_Lit [OF nd]
             split: option.splits)
qed

lemma build_digit: "starts_with_digit s \<Longrightarrow> build s = None"
  by (cases s) (auto simp: build_def is_digit_def)

lemma match_here_TARBALL:
  "match_here TARBALL_VERSION_PATTERN (''/'' @ s) =
     (case token s of
        None \<Rightarrow> None
      | Some (g, r) \<Rightarrow>
          (case build r of
             None \<Rightarrow> None
           | Some (m, r') \<Rightarrow> Some (''/'' @ g @ m, g, r')))"
proof -
  let ?f = "\<lambda>(g, r2). map (\<lambda>(m3, r3). (''/'' @ g @ m3, g, r3))
              (run (after TARBALL_VERSION_PATTERN) r2)"
  have "run (lits ''/'') (''/'' @ s) = [(''/'', s)]"
    using run_lits_append [of "''/''" "[]" s] by simp
  then have all: "match_all TARBALL_VERSION_PATTERN (''/'' @ s) =
      concat (map ?f (run version_items s))"
    unfolding match_all_def by (simp add: TARBALL_VERSION_PATTERN_def)
  show ?thesis
  proof (cases "digits_then (CHR ''.'') s")
    case None
    then show ?thesis
      unfolding match_here_def all by (simp add: run_version_items token_def)
  next
    case (Some a)
    obtain m1 r1 where a: "a = (m1, r1)" by (cases a)
    show ?thesis
    proof (cases "digits_then (CHR ''.'') r1")
      case None
      with Some a show ?thesis
        unfolding match_here_def all by (simp add: run_version_items token_def)
    next
      case b: (Some b)
      obtain m2 r2 where b': "b = (m2, r2)" by (cases b)
      show ?thesis
      proof (cases "starts_with_digit r2")
        case False
        with Some a b b' run_Plus_Digit_none [OF False, of "[]"] show ?thesis
          unfolding match_here_def all by (simp add: run_version_items token_def)
      next
        case True
        from run_Plus_Digit_first [OF True] obtain bs
          where r: "run [Plus Digit] r2 = (takeWhile is_digit r2, dropWhile is_digit r2) # bs"
            and d: "\<forall>(m, r) \<in> set bs. starts_with_digit r"
          by blast
        have t: "token s = Some (m1 @ m2 @ takeWhile is_digit r2, dropWhile is_digit r2)"
          using Some a b b' True by (simp add: token_def)
        have "\<forall>x \<in> set (map (apfst ((@) (m1 @ m2))) bs). ?f x = []"
          using d by (auto simp: run_after_TARBALL build_digit)
        then have z: "concat (map ?f (map (apfst ((@) (m1 @ m2))) bs)) = []"
          by (rule concat_map_Nil)
        have "match_all TARBALL_VERSION_PATTERN (''/'' @ s) =
            ?f (m1 @ m2 @ takeWhile is_digit r2, dropWhile is_digit r2)"
          unfolding all using Some a b b' r z by (simp add: run_version_items)
        then show ?thesis
          unfolding match_here_def t
          by (simp add: run_after_TARBALL split: option.splits)
      qed
    qed
  qed
qed

lemma match_here_TARBALL_prefix:
  assumes "match_here TARBALL_VERSION_PATTERN s = Some x"
  shows "\<exists>r. s = ''/'' @ r"
proof -
  from assms have "x \<in> set (match_all TARBALL_VERSION_PATTERN s)"
    by (auto simp: match_here_def split: list.splits)
  then obtain m1 r1 where "(m1, r1) \<in> set (run (lits ''/'') s)"
    unfolding match_all_def TARBALL_VERSION_PATTERN_def by auto
  from run_lits_only [OF this] show ?thesis by blast
qed

lemma build_append:
  "digit_string b \<Longrightarrow> build (''-'' @ b @ ''/'' @ r) = Some (''-'' @ b @ ''/'', r)"
  using digits_then_append [of b "CHR ''/''" r]
  by (simp add: build_def is_digit_def)

lemma build_Some:
  assumes "build s = Some (m, r)"
  shows "\<exists>b. digit_string b \<and> m = ''-'' @ b @ ''/'' \<and> s = m @ r"
proof -
  from assms obtain s' m' where s: "s = CHR ''-'' # s'"
    and d: "digits_then (CHR ''/'') s' = Some (m', r)" and m: "m = CHR ''-'' # m'"
    by (auto simp: build_def split: list.splits if_splits option.splits)
  from digits_then_Some [OF d] s m show ?thesis
    by auto
qed

lemma match_here_TARBALL_segment:
  assumes "is_version x" "digit_string b"
  shows "match_here TARBALL_VERSION_PATTERN (''/'' @ x @ ''-'' @ b @ ''/'' @ r) =
           Some (''/'' @ x @ ''-'' @ b @ ''/'', x, r)"
proof -
  have "\<not> starts_with_digit (''-'' @ b @ ''/'' @ r)"
    by (simp add: is_digit_def)
  from is_version_token [OF assms(1) this] build_append [OF assms(2), of r]
  show ?thesis
    unfolding match_here_TARBALL by simp
qed

lemma match_here_TARBALL_Some:
  assumes "match_here TARBALL_VERSION_PATTERN s = Some (m, g, r)"
  shows "\<exists>b. is_version g \<and> digit_string b \<and> m = ''/'' @ g @ ''-'' @ b @ ''/'' \<and> s = m @ r"
proof -
  from match_here_TARBALL_prefix [OF assms] obtain s' where s: "s = ''/'' @ s'"
    by blast
  from assms have e: "(case token s' of
        None \<Rightarrow> None
      | Some (g, r) \<Rightarrow>
          (case build r of
             None \<Rightarrow> None
           | Some (m, r') \<Rightarrow> Some (''/'' @ g @ m, g, r'))) = Some (m, g, r)"
    unfolding s match_here_TARBALL .
  then obtain r2 m3 where t: "token s' = Some (g, r2)" and b: "build r2 = Some (m3, r)"
    and m: "m = ''/'' @ g @ m3"
    by (auto split: option.splits prod.splits)
  from token_Some [OF t] have "s' = g @ r2" by auto
  with build_Some [OF b] token_is_version [OF t] s m show ?thesis
    by auto
qed

lemma get_current_version_search:
  "file_text w = Some s \<Longrightarrow>
     fst (get_current_version w) = map_option (\<lambda>(u, m, g, r). g) (search VERSION_PATTERN s)"
  by (auto simp: get_current_version_def read_text_def split: option.splits)

lemma get_current_version_Some:
  assumes "fst (get_current_version w) = Some c"
  shows "\<exists>s u m r. file_text w = Some s \<and> search VERSION_PATTERN s = Some (u, m, c, r)"
  using assms
  by (auto simp: get_current_version_def read_text_def split: option.splits)

lemma update_version_patched:
  assumes "file_text w = Some s" "patched v w = Some n" "writable w \<or> d"
  shows "fst (update_version v d w) = Inr True \<and>
         file_text (snd (update_version v d w)) = (if d then Some s else Some n)"
proof (cases "n = s")
  case True
  with update_version_unchanged [of w s v d] assms show ?thesis
    by (simp add: print_out_def)
next
  case False
  show ?thesis
  proof (cases d)
    case True
    with update_version_dry_run [of w s v n] assms False show ?thesis
      by (simp add: print_out_def)
  next
    case nd: False
    with update_version_written [of w s v n] assms False show ?thesis
      by (simp add: print_out_def)
  qed
qed

lemma patched_version:
  "is_version x \<Longrightarrow> file_text w = Some s \<Longrightarrow>
     patched x w = Some (sub_loop (map Text (''antigravity/'' @ x)) s)"
  using VERSION_PATTERN_sub_plain [OF is_version_no_backslash, of x s]
  by (simp add: patched_def)


section \<open>Check mode\<close>

text \<open>
  C7. With \<open>--check\<close> the tracked file is never written, whatever the outcome: its
  contents after the run are those before it and \<open>write_text\<close> is never called. When the
  current version differs from the latest one, the run prints the discrepancy and
  exits with status 1.
\<close>

theorem check_mode_never_writes:
  assumes "check a"
  shows "file_text (snd (main a pg w)) = file_text w \<and>
    writes (snd (main a pg w)) = writes w \<and>
    (\<forall>c l. fst (get_current_version w) = Some c \<longrightarrow>
       fst (resolve_latest a pg w) = Some l \<longrightarrow> c \<noteq> l \<longrightarrow>
       fst (main a pg w) = Inr 1 \<and>
       stdout (snd (main a pg w)) =
         stdout w @ [''Current version: '' @ c, ''Latest version:  '' @ l,
                     ''Update available: '' @ c @ '' -> '' @ l])"
proof (intro conjI allI impI)
  show "file_text (snd (main a pg w)) = file_text w"
    using assms main_frame [of a pg w] by simp
  show "writes (snd (main a pg w)) = writes w"
    using assms main_frame [of a pg w] by simp
next
  fix c l
  assume c: "fst (get_current_version w) = Some c"
    and l: "fst (resolve_latest a pg w) = Some l" and ne: "c \<noteq> l"
  from main_reaches_compare [OF c l] obtain w3
    where m: "main a pg w = main_compare a c l w3"
      and o: "stdout w3 = stdout w @ [''Current version: '' @ c]"
    by blast
  show "fst (main a pg w) = Inr 1"
    using assms ne by (simp add: m main_compare_def Let_def)
  show "stdout (snd (main a pg w)) =
         stdout w @ [''Current version: '' @ c, ''Latest version:  '' @ l,
                     ''Update available: '' @ c @ '' -> '' @ l]"
    using assms ne o by (simp add: m main_compare_def Let_def print_out_def)
qed

theorem check_mode_never_writes_witness:
  "check (no_flags\<lparr>check := True, version := Some ''1.16.0''\<rparr>) \<and>
   file_text (snd (main (no_flags\<lparr>check := True, version := Some ''1.16.0''\<rparr>) Not_installed
     (world_of ''antigravity/1.15.8''))) = Some ''antigravity/1.15.8'' \<and>
   writes (snd (main (no_flags\<lparr>check := True, version := Some ''1.16.0''\<rparr>) Not_installed
     (world_of ''antigravity/1.15.8''))) = 0 \<and>
   fst (main (no_flags\<lparr>check := True, version := Some ''1.16.0''\<rparr>) Not_installed
     (world_of ''antigravity/1.15.8'')) = Inr 1 \<and>
   stdout (snd (main (no_flags\<lparr>check := True, version := Some ''1.16.0''\<rparr>) Not_installed
     (world_of ''antigravity/1.15.8''))) =
     [''Current version: 1.15.8'', ''Latest version:  1.16.0'',
      ''Update available: 1.15.8 -> 1.16.0'']"
proof -
  let ?a = "no_flags\<lparr>check := True, version := Some ''1.16.0''\<rparr>"
  let ?w = "world_of ''antigravity/1.15.8''"
  have c: "check ?a"
    by (simp add: no_flags_def)
  have g: "fst (get_current_version ?w) = Some ''1.15.8''"
    by code_simp
  have l: "fst (resolve_latest ?a Not_installed ?w) = Some ''1.16.0''"
    by code_simp
  have ne: "''1.15.8'' \<noteq> ''1.16.0''"
    by simp
  note t = check_mode_never_writes [OF c, of Not_installed ?w]
  from t have "file_text (snd (main ?a Not_installed ?w)) = file_text ?w"
    and "writes (snd (main ?a Not_installed ?w)) = writes ?w"
    by simp_all
  moreover from t g l ne have "fst (main ?a Not_installed ?w) = Inr 1 \<and>
      stdout (snd (main ?a Not_installed ?w)) =
        stdout ?w @ [''Current version: '' @ ''1.15.8'', ''Latest version:  '' @ ''1.16.0'',
                     ''Update available: '' @ ''1.15.8'' @ '' -> '' @ ''1.16.0'']"
    by blast
  ultimately show ?thesis
    using c by (simp add: world_of_def)
qed


section \<open>Dry runs and writes\<close>

text \<open>
  C6. With \<open>dry_run\<close> the tracked file is never written, by \<open>update_version\<close> and by a
  whole run, also when the computed contents differ from the current ones. Without
  \<open>dry_run\<close>, \<open>update_version\<close> calls \<open>write_text\<close> exactly when it computed new contents
  that differ from the current ones; otherwise the file is left alone, and a write that
  succeeds stores the new contents.
\<close>

theorem dry_run_never_writes:
  "file_text (snd (update_version v True w)) = file_text w \<and>
   writes (snd (update_version v True w)) = writes w \<and>
   (dry_run a \<longrightarrow> file_text (snd (main a pg w)) = file_text w \<and>
                 writes (snd (main a pg w)) = writes w) \<and>
   (writes (snd (update_version v False w)) = writes w + 1 \<longleftrightarrow>
      (\<exists>n. patched v w = Some n \<and> file_text w \<noteq> Some n)) \<and>
   (writes (snd (update_version v False w)) \<noteq> writes w + 1 \<longrightarrow>
      snd (update_version v False w) = w \<or>
      file_text (snd (update_version v False w)) = file_text w \<and>
      writes (snd (update_version v False w)) = writes w) \<and>
   (\<forall>n. patched v w = Some n \<longrightarrow> file_text w \<noteq> Some n \<longrightarrow> writable w \<longrightarrow>
      file_text (snd (update_version v False w)) = Some n)"
proof (intro conjI allI impI)
  show "file_text (snd (update_version v True w)) = file_text w"
    using update_version_frame [of v True w] by (cases "update_version v True w") auto
  show "writes (snd (update_version v True w)) = writes w"
    using update_version_frame [of v True w] by (cases "update_version v True w") auto
  show "file_text (snd (main a pg w)) = file_text w" if "dry_run a"
    using that main_frame [of a pg w] by simp
  show "writes (snd (main a pg w)) = writes w" if "dry_run a"
    using that main_frame [of a pg w] by simp
  show "(writes (snd (update_version v False w)) = writes w + 1) =
      (\<exists>n. patched v w = Some n \<and> file_text w \<noteq> Some n)"
    by (auto simp: update_version_def patched_def read_text_def write_text_def print_out_def
             split: option.splits prod.splits if_splits)
  show "snd (update_version v False w) = w \<or>
      file_text (snd (update_version v False w)) = file_text w \<and>
      writes (snd (update_version v False w)) = writes w"
    if "writes (snd (update_version v False w)) \<noteq> writes w + 1"
    using that
    by (auto simp: update_version_def patched_def read_text_def write_text_def print_out_def
             split: option.splits prod.splits if_splits)
  show "file_text (snd (update_version v False w)) = Some n"
    if "patched v w = Some n" "file_text w \<noteq> Some n" "writable w" for n
    using that
    by (auto simp: update_version_def patched_def read_text_def write_text_def print_out_def
             split: option.splits prod.splits if_splits)
qed

theorem dry_run_never_writes_witness:
  "dry_run (no_flags\<lparr>dry_run := True, version := Some ''1.15.8''\<rparr>) \<and>
   patched ''1.15.8'' (world_of ''antigravity/1.15.7'') = Some ''antigravity/1.15.8'' \<and>
   file_text (snd (update_version ''1.15.8'' True (world_of ''antigravity/1.15.7''))) =
     Some ''antigravity/1.15.7'' \<and>
   writes (snd (update_version ''1.15.8'' True (world_of ''antigravity/1.15.7''))) = 0 \<and>
   file_text (snd (main (no_flags\<lparr>dry_run := True, version := Some ''1.15.8''\<rparr>) Not_installed
     (world_of ''antigravity/1.15.7''))) = Some ''antigravity/1.15.7'' \<and>
   writes (snd (main (no_flags\<lparr>dry_run := True, version := Some ''1.15.8''\<rparr>) Not_installed
     (world_of ''antigravity/1.15.7''))) = 0 \<and>
   writes (snd (update_version ''1.15.8'' False (world_of ''antigravity/1.15.7''))) = 1 \<and>
   file_text (snd (update_version ''1.15.8'' False (world_of ''antigravity/1.15.7''))) =
     Some ''antigravity/1.15.8''"
proof -
  let ?a = "no_flags\<lparr>dry_run := True, version := Some ''1.15.8''\<rparr>"
  let ?w = "world_of ''antigravity/1.15.7''"
  have d: "dry_run ?a"
    by (simp add: no_flags_def)
  have p: "patched ''1.15.8'' ?w = Some ''antigravity/1.15.8''"
    by code_simp
  have f: "file_text ?w = Some ''antigravity/1.15.7''" and wr: "writable ?w"
    and z: "writes ?w = 0"
    by (simp_all add: world_of_def)
  have ne: "file_text ?w \<noteq> Some ''antigravity/1.15.8''"
    by (simp add: world_of_def)
  note t = dry_run_never_writes [of "''1.15.8''" ?w ?a Not_installed]
  from t have "file_text (snd (update_version ''1.15.8'' True ?w)) = file_text ?w"
    and "writes (snd (update_version ''1.15.8'' True ?w)) = writes ?w"
    by simp_all
  moreover from t d have "file_text (snd (main ?a Not_installed ?w)) = file_text ?w"
    and "writes (snd (main ?a Not_installed ?w)) = writes ?w"
    by simp_all
  moreover from t p ne have "writes (snd (update_version ''1.15.8'' False ?w)) = writes ?w + 1"
    by blast
  moreover from t p ne wr
  have "file_text (snd (update_version ''1.15.8'' False ?w)) = Some ''antigravity/1.15.8''"
    by blast
  ultimately show ?thesis
    using d p f z by simp
qed


section \<open>Reads and writes of the tracked file in one run\<close>

text \<open>
  C9 states that the tracked file is read exactly once per run. It is not:
  \<open>get_current_version\<close> and \<open>update_version\<close> each call \<open>read_text\<close>, so a run that
  reaches the update step reads the file twice.
\<close>

theorem read_once_counterexample:
  "reads (world_of ''antigravity/1.15.7'') = 0 \<and>
   reads (snd (main (no_flags\<lparr>version := Some ''1.15.8''\<rparr>) Not_installed
     (world_of ''antigravity/1.15.7''))) = 2"
  by code_simp

text \<open>
  C9, amended. In one run the tracked file is read at most twice and written at most
  once. \<open>get_current_version\<close> and \<open>update_version\<close> each read it at most once, and the
  run reads it twice exactly when it reaches the update step: the current version was
  read, a latest version was resolved, the two differ and \<open>--check\<close> is not given.
\<close>

theorem reads_and_writes_per_run:
  "reads (snd (main a pg w)) \<le> reads w + 2 \<and>
   writes (snd (main a pg w)) \<le> writes w + 1 \<and>
   reads (snd (get_current_version w)) \<le> reads w + 1 \<and>
   reads (snd (update_version v d w)) \<le> reads w + 1 \<and>
   (reads (snd (main a pg w)) = reads w + 2 \<longleftrightarrow>
      (\<exists>c l. fst (get_current_version w) = Some c \<and> fst (resolve_latest a pg w) = Some l \<and>
             c \<noteq> l \<and> \<not> check a))"
proof (intro conjI)
  show "reads (snd (get_current_version w)) \<le> reads w + 1"
    using get_current_version_frame [of w] by (cases "get_current_version w") auto
  show "reads (snd (update_version v d w)) \<le> reads w + 1"
    using update_version_frame [of v d w] by (cases "update_version v d w") auto
  show "reads (snd (main a pg w)) \<le> reads w + 2"
    using main_frame [of a pg w] by simp
  show "writes (snd (main a pg w)) \<le> writes w + 1"
    using main_frame [of a pg w] by simp
  show "(reads (snd (main a pg w)) = reads w + 2) =
      (\<exists>c l. fst (get_current_version w) = Some c \<and> fst (resolve_latest a pg w) = Some l \<and>
             c \<noteq> l \<and> \<not> check a)"
  proof (cases "fst (get_current_version w)")
    case None
    then have "main a pg w = (Inr 1, snd (get_current_version w))"
      unfolding main_resolve by (auto simp: truthy_def split: prod.splits)
    then show ?thesis
      using None get_current_version_frame [of w] by (cases "get_current_version w") auto
  next
    case (Some c)
    show ?thesis
    proof (cases "fst (resolve_latest a pg w)")
      case None
      obtain w1 where g: "get_current_version w = (Some c, w1)"
        using Some by (cases "get_current_version w") auto
      have t: "truthy (Some c) = Some c"
        using get_current_version_truthy [of w] Some by simp
      obtain w3 where r: "resolve_latest a pg (print_out (''Current version: '' @ c) w1) = (None, w3)"
        using None resolve_latest_fst [of a pg w "print_out (''Current version: '' @ c) w1"]
        by (cases "resolve_latest a pg (print_out (''Current version: '' @ c) w1)") auto
      have "main a pg w = (Inr 1, w3)"
        unfolding main_resolve using r by (simp add: g t)
      then show ?thesis
        using None Some resolve_latest_frame [OF r] get_current_version_frame [OF g]
        by (auto simp: print_out_def split: if_splits)
    next
      case l: (Some l)
      from main_reaches_compare [OF Some l] obtain w3
        where m: "main a pg w = main_compare a c l w3" and f: "file_text w3 = file_text w"
          and rd: "reads w3 = reads w + 1"
        by blast
      have fw: "file_text w \<noteq> None"
        using Some by (auto simp: get_current_version_def split: option.splits)
      have u: "reads (snd (update_version l (dry_run a) (print_out (''Latest version:  '' @ l) w3))) = reads w + 2"
        using update_version_frame [of l "dry_run a" "print_out (''Latest version:  '' @ l) w3"] f rd fw
        by (cases "update_version l (dry_run a) (print_out (''Latest version:  '' @ l) w3)")
           (auto simp: print_out_def)
      show ?thesis
        using Some l rd u
        by (auto simp: m main_compare_def Let_def print_out_def split: prod.splits sum.splits)
    qed
  qed
qed

theorem reads_and_writes_per_run_witness:
  "reads (snd (main (no_flags\<lparr>check := True, version := Some ''1.16.0''\<rparr>) Not_installed
     (world_of ''antigravity/1.15.8''))) \<le> 2 \<and>
   writes (snd (main (no_flags\<lparr>check := True, version := Some ''1.16.0''\<rparr>) Not_installed
     (world_of ''antigravity/1.15.8''))) \<le> 1 \<and>
   reads (snd (main (no_flags\<lparr>check := True, version := Some ''1.16.0''\<rparr>) Not_installed
     (world_of ''antigravity/1.15.8''))) \<noteq> 2"
proof -
  let ?a = "no_flags\<lparr>check := True, version := Some ''1.16.0''\<rparr>"
  let ?w = "world_of ''antigravity/1.15.8''"
  have c: "check ?a"
    by (simp add: no_flags_def)
  have z: "reads ?w = 0" "writes ?w = 0"
    by (simp_all add: world_of_def)
  note t = reads_and_writes_per_run [of ?a Not_installed ?w "''1.16.0''" False]
  from t c have "reads (snd (main ?a Not_installed ?w)) \<noteq> reads ?w + 2"
    by blast
  with t z show ?thesis
    by simp
qed


section \<open>Exit status\<close>

text \<open>
  C1 states that the exit status is 0 exactly when the latest version equals the current
  one, the update is applied (normal mode) or the would-be change is reported (dry run).
  \<open>update_version\<close> has a further way to return \<open>True\<close>: the substituted contents equal
  the current ones. \<open>main\<close> reaches it with \<open>--version '\1'\<close>, which \<open>sub\<close> reads as a
  reference to group 1, so that every match is replaced by itself: the latest version
  differs from the current one, nothing is written, no would-be change is reported, and
  the run exits with status 0, with and without \<open>--dry-run\<close>.
\<close>

theorem exit_code_counterexample:
  "fst (get_current_version (world_of ''antigravity/1.15.8'')) = Some ''1.15.8'' \<and>
   fst (resolve_latest (no_flags\<lparr>dry_run := True, version := Some [CHR 0x5C, CHR ''1'']\<rparr>)
     Not_installed (world_of ''antigravity/1.15.8'')) = Some [CHR 0x5C, CHR ''1''] \<and>
   exit_code (main (no_flags\<lparr>dry_run := True, version := Some [CHR 0x5C, CHR ''1'']\<rparr>)
     Not_installed (world_of ''antigravity/1.15.8'')) = 0 \<and>
   stdout (snd (main (no_flags\<lparr>dry_run := True, version := Some [CHR 0x5C, CHR ''1'']\<rparr>)
     Not_installed (world_of ''antigravity/1.15.8''))) =
     [''Current version: 1.15.8'', ''Latest version:  '' @ [CHR 0x5C, CHR ''1''],
      ''No changes needed''] \<and>
   exit_code (main (no_flags\<lparr>version := Some [CHR 0x5C, CHR ''1'']\<rparr>)
     Not_installed (world_of ''antigravity/1.15.8'')) = 0 \<and>
   writes (snd (main (no_flags\<lparr>version := Some [CHR 0x5C, CHR ''1'']\<rparr>)
     Not_installed (world_of ''antigravity/1.15.8''))) = 0 \<and>
   file_text (snd (main (no_flags\<lparr>version := Some [CHR 0x5C, CHR ''1'']\<rparr>)
     Not_installed (world_of ''antigravity/1.15.8''))) = Some ''antigravity/1.15.8''"
  by code_simp

text \<open>
  C1, amended. The exit status of every run is given by this table. It is 0 exactly when
  the latest version equals the current one, or, without \<open>--check\<close>, \<open>update_version\<close>
  returns \<open>True\<close>: the substituted contents equal the current ones (\<open>No changes needed\<close>),
  the would-be change is reported (dry run), or the new contents are written. It is 1
  when the current version cannot be read, when no latest version is resolved, with
  \<open>--check\<close> when the two differ, and when the template or the write raises.
\<close>

theorem exit_code_of_run:
  "(fst (get_current_version w) = None \<longrightarrow> exit_code (main a pg w) = 1) \<and>
   (\<forall>c. fst (get_current_version w) = Some c \<longrightarrow>
      (fst (resolve_latest a pg w) = None \<longrightarrow> exit_code (main a pg w) = 1) \<and>
      (\<forall>l. fst (resolve_latest a pg w) = Some l \<longrightarrow>
         (c = l \<longrightarrow> exit_code (main a pg w) = 0) \<and>
         (c \<noteq> l \<and> check a \<longrightarrow> exit_code (main a pg w) = 1) \<and>
         (c \<noteq> l \<and> \<not> check a \<longrightarrow>
            (case patched l w of
               None \<Rightarrow> fst (main a pg w) = Inl Template_error \<and> exit_code (main a pg w) = 1
             | Some n \<Rightarrow>
                 if file_text w = Some n then
                   exit_code (main a pg w) = 0 \<and>
                   file_text (snd (main a pg w)) = file_text w \<and>
                   last (stdout (snd (main a pg w))) = ''No changes needed''
                 else if dry_run a then
                   exit_code (main a pg w) = 0 \<and>
                   file_text (snd (main a pg w)) = file_text w \<and>
                   last (stdout (snd (main a pg w))) =
                     ''Would update USER_AGENT to: antigravity/'' @ l
                 else if writable w then
                   exit_code (main a pg w) = 0 \<and>
                   file_text (snd (main a pg w)) = Some n \<and>
                   last (stdout (snd (main a pg w))) =
                     ''Updated USER_AGENT to: antigravity/'' @ l
                 else
                   fst (main a pg w) = Inl Write_error \<and> exit_code (main a pg w) = 1 \<and>
                   file_text (snd (main a pg w)) = file_text w))))"
proof (intro conjI allI impI)
  assume "fst (get_current_version w) = None"
  then show "exit_code (main a pg w) = 1"
    by (simp add: main_no_current exit_code_def)
next
  fix c
  assume c: "fst (get_current_version w) = Some c"
  {
    assume "fst (resolve_latest a pg w) = None"
    from main_no_latest [OF c this] show "exit_code (main a pg w) = 1"
      by (auto simp: exit_code_def)
  }
  fix l
  assume l: "fst (resolve_latest a pg w) = Some l"
  from main_reaches_compare [OF c l] obtain w3
    where m: "main a pg w = main_compare a c l w3" and f: "file_text w3 = file_text w"
      and wr: "writable w3 = writable w"
    by blast
  {
    assume "c = l"
    then show "exit_code (main a pg w) = 0"
      by (simp add: m main_compare_def Let_def exit_code_def)
  }
  {
    assume "c \<noteq> l \<and> check a"
    then show "exit_code (main a pg w) = 1"
      by (simp add: m main_compare_def Let_def exit_code_def)
  }
  assume d: "c \<noteq> l \<and> \<not> check a"
  let ?w = "print_out (''Latest version:  '' @ l) w3"
  have fw: "file_text ?w = file_text w" and ww: "writable ?w = writable w"
    using f wr by (simp_all add: print_out_def)
  obtain content where content: "file_text w = Some content"
    using c by (auto simp: get_current_version_def split: option.splits)
  have p: "patched l ?w = patched l w"
    using fw by (rule patched_world)
  have m': "main a pg w =
       (case update_version l (dry_run a) ?w of
          (Inl e, w2) \<Rightarrow> (Inl e, w2)
        | (Inr ok, w2) \<Rightarrow> if ok then (Inr 0, w2) else (Inr 1, w2))"
    unfolding m using d by (intro main_compare_update) simp_all
  show "case patched l w of
          None \<Rightarrow> fst (main a pg w) = Inl Template_error \<and> exit_code (main a pg w) = 1
        | Some n \<Rightarrow>
            if file_text w = Some n then
              exit_code (main a pg w) = 0 \<and>
              file_text (snd (main a pg w)) = file_text w \<and>
              last (stdout (snd (main a pg w))) = ''No changes needed''
            else if dry_run a then
              exit_code (main a pg w) = 0 \<and>
              file_text (snd (main a pg w)) = file_text w \<and>
              last (stdout (snd (main a pg w))) =
                ''Would update USER_AGENT to: antigravity/'' @ l
            else if writable w then
              exit_code (main a pg w) = 0 \<and>
              file_text (snd (main a pg w)) = Some n \<and>
              last (stdout (snd (main a pg w))) =
                ''Updated USER_AGENT to: antigravity/'' @ l
            else
              fst (main a pg w) = Inl Write_error \<and> exit_code (main a pg w) = 1 \<and>
              file_text (snd (main a pg w)) = file_text w"
  proof (cases "patched l w")
    case None
    with update_version_template_error [of ?w content l "dry_run a"] fw content p
    show ?thesis
      by (simp add: m' exit_code_def)
  next
    case (Some n)
    show ?thesis
    proof (cases "n = content")
      case True
      with update_version_unchanged [of ?w content l "dry_run a"] fw content p Some
      show ?thesis
        by (simp add: m' exit_code_def print_out_def)
    next
      case False
      show ?thesis
      proof (cases "dry_run a")
        case True
        with update_version_dry_run [of ?w content l n] fw content p Some False
        show ?thesis
          by (simp add: m' exit_code_def print_out_def)
      next
        case nd: False
        show ?thesis
        proof (cases "writable w")
          case True
          with update_version_written [of ?w content l n] fw ww content p Some False nd
          show ?thesis
            by (simp add: m' exit_code_def print_out_def)
        next
          case nw: False
          with update_version_write_error [of ?w content l n] fw ww content p Some False nd
          show ?thesis
            by (simp add: m' exit_code_def print_out_def)
        qed
      qed
    qed
  qed
qed

theorem exit_code_of_run_witness:
  "exit_code (main (no_flags\<lparr>version := Some ''1.15.8''\<rparr>) Not_installed
     (world_of ''antigravity/1.15.7'')) = 0 \<and>
   file_text (snd (main (no_flags\<lparr>version := Some ''1.15.8''\<rparr>) Not_installed
     (world_of ''antigravity/1.15.7''))) = Some ''antigravity/1.15.8'' \<and>
   last (stdout (snd (main (no_flags\<lparr>version := Some ''1.15.8''\<rparr>) Not_installed
     (world_of ''antigravity/1.15.7'')))) = ''Updated USER_AGENT to: antigravity/1.15.8''"
proof -
  let ?a = "no_flags\<lparr>version := Some ''1.15.8''\<rparr>"
  let ?w = "world_of ''antigravity/1.15.7''"
  have g: "fst (get_current_version ?w) = Some ''1.15.7''"
    by code_simp
  have l: "fst (resolve_latest ?a Not_installed ?w) = Some ''1.15.8''"
    by code_simp
  have p: "patched ''1.15.8'' ?w = Some ''antigravity/1.15.8''"
    by code_simp
  have a: "\<not> check ?a" "\<not> dry_run ?a"
    by (simp_all add: no_flags_def)
  have w: "writable ?w" "file_text ?w \<noteq> Some ''antigravity/1.15.8''"
    by (simp_all add: world_of_def)
  have ne: "''1.15.7'' \<noteq> ''1.15.8''"
    by simp
  from exit_code_of_run [of ?w ?a Not_installed] g l ne a
  have "case patched ''1.15.8'' ?w of
          None \<Rightarrow> fst (main ?a Not_installed ?w) = Inl Template_error \<and>
                  exit_code (main ?a Not_installed ?w) = 1
        | Some n \<Rightarrow>
            if file_text ?w = Some n then
              exit_code (main ?a Not_installed ?w) = 0 \<and>
              file_text (snd (main ?a Not_installed ?w)) = file_text ?w \<and>
              last (stdout (snd (main ?a Not_installed ?w))) = ''No changes needed''
            else if dry_run ?a then
              exit_code (main ?a Not_installed ?w) = 0 \<and>
              file_text (snd (main ?a Not_installed ?w)) = file_text ?w \<and>
              last (stdout (snd (main ?a Not_installed ?w))) =
                ''Would update USER_AGENT to: antigravity/'' @ ''1.15.8''
            else if writable ?w then
              exit_code (main ?a Not_installed ?w) = 0 \<and>
              file_text (snd (main ?a Not_installed ?w)) = Some n \<and>
              last (stdout (snd (main ?a Not_installed ?w))) =
                ''Updated USER_AGENT to: antigravity/'' @ ''1.15.8''
            else
              fst (main ?a Not_installed ?w) = Inl Write_error \<and>
              exit_code (main ?a Not_installed ?w) = 1 \<and>
              file_text (snd (main ?a Not_installed ?w)) = file_text ?w"
    by blast
  with p a w show ?thesis
    by simp
qed


section \<open>Where the latest version comes from\<close>

text \<open>
  C8. The source of the latest version is chosen by a fixed precedence, and the first
  one present wins; a flag is present when it is given with a non-empty value
  (\<open>if args.version:\<close>). With \<open>--version\<close> present, the run does not depend on \<open>--url\<close> or
  on the page, and compares the current version with the given value. With only
  \<open>--url\<close> present it does not depend on the page and goes on with the version
  extracted from the URL, or exits with status 1 when there is none. With neither, it
  goes on with the version fetched from the page. Giving several flags is no error.
\<close>

theorem source_priority:
  "(\<forall>v. truthy (version a) = Some v \<longrightarrow>
      main a pg w = main (a\<lparr>url := u'\<rparr>) pg' w \<and>
      (\<forall>c. fst (get_current_version w) = Some c \<longrightarrow>
         (\<exists>w3. main a pg w = main_compare a c v w3 \<and> file_text w3 = file_text w))) \<and>
   (\<forall>u. truthy (version a) = None \<longrightarrow> truthy (url a) = Some u \<longrightarrow>
      main a pg w = main a pg' w \<and>
      (\<forall>c. fst (get_current_version w) = Some c \<longrightarrow>
         (case fst (extract_version_from_url u w) of
            None \<Rightarrow> fst (main a pg w) = Inr 1
          | Some l \<Rightarrow> \<exists>w3. main a pg w = main_compare a c l w3 \<and> file_text w3 = file_text w))) \<and>
   (truthy (version a) = None \<longrightarrow> truthy (url a) = None \<longrightarrow>
      (\<forall>c. fst (get_current_version w) = Some c \<longrightarrow>
         (case fst (fetch_latest_version pg w) of
            None \<Rightarrow> fst (main a pg w) = Inr 1
          | Some l \<Rightarrow> \<exists>w3. main a pg w = main_compare a c l w3 \<and> file_text w3 = file_text w)))"
proof (intro conjI allI impI)
  fix v
  assume v: "truthy (version a) = Some v"
  then show "main a pg w = main (a\<lparr>url := u'\<rparr>) pg' w"
    by (simp add: main_def main_compare_def Let_def split: prod.splits option.splits)
  fix c
  assume c: "fst (get_current_version w) = Some c"
  from main_latest_cases [OF c, of a pg] resolve_latest_version [OF v, of pg w]
  show "\<exists>w3. main a pg w = main_compare a c v w3 \<and> file_text w3 = file_text w"
    by simp
next
  fix u
  assume v: "truthy (version a) = None" and u: "truthy (url a) = Some u"
  then show "main a pg w = main a pg' w"
    by (simp add: main_def Let_def split: prod.splits option.splits)
  fix c
  assume c: "fst (get_current_version w) = Some c"
  from main_latest_cases [OF c, of a pg] resolve_latest_url [OF v u, of pg w]
  show "case fst (extract_version_from_url u w) of
          None \<Rightarrow> fst (main a pg w) = Inr 1
        | Some l \<Rightarrow> \<exists>w3. main a pg w = main_compare a c l w3 \<and> file_text w3 = file_text w"
    by simp
next
  fix c
  assume v: "truthy (version a) = None" and u: "truthy (url a) = None"
    and c: "fst (get_current_version w) = Some c"
  from main_latest_cases [OF c, of a pg] resolve_latest_page [OF v u, of pg w]
  show "case fst (fetch_latest_version pg w) of
          None \<Rightarrow> fst (main a pg w) = Inr 1
        | Some l \<Rightarrow> \<exists>w3. main a pg w = main_compare a c l w3 \<and> file_text w3 = file_text w"
    by simp
qed

theorem source_priority_witness:
  "truthy (version (no_flags\<lparr>version := Some ''1.15.8'',
     url := Some ''https://x/stable/1.16.2-99887766/linux-x64/Antigravity.tar.gz''\<rparr>))
     = Some ''1.15.8'' \<and>
   main (no_flags\<lparr>version := Some ''1.15.8'',
       url := Some ''https://x/stable/1.16.2-99887766/linux-x64/Antigravity.tar.gz''\<rparr>)
     (Href None) (world_of ''antigravity/1.15.7'') =
   main (no_flags\<lparr>version := Some ''1.15.8'', url := None\<rparr>)
     Not_installed (world_of ''antigravity/1.15.7'')"
proof -
  let ?a = "no_flags\<lparr>version := Some ''1.15.8'',
     url := Some ''https://x/stable/1.16.2-99887766/linux-x64/Antigravity.tar.gz''\<rparr>"
  let ?w = "world_of ''antigravity/1.15.7''"
  have v: "truthy (version ?a) = Some ''1.15.8''"
    by (simp add: truthy_def no_flags_def)
  from source_priority [of ?a "Href None" ?w None Not_installed] v
  have "main ?a (Href None) ?w = main (?a\<lparr>url := None\<rparr>) Not_installed ?w"
    by blast
  with v show ?thesis
    by simp
qed


section \<open>Reading the current version\<close>

text \<open>
  C2. When the contents of the tracked file contain \<open>antigravity/x\<close> with a version
  token \<open>x\<close>, and \<open>x\<close> is the first captured token (no match of the pattern starts in
  the text before this occurrence, and the token does not go on with a further digit),
  then \<open>get_current_version\<close> returns \<open>x\<close>.
\<close>

theorem get_current_version_first_token:
  assumes "is_version x" and "search VERSION_PATTERN u = None" and "\<not> starts_with_digit r"
    and "file_text w = Some (u @ ''antigravity/'' @ x @ r)"
  shows "fst (get_current_version w) = Some x"
  using search_occurrence [OF search_None_no_match_before [OF assms(2)] assms(1,3)]
    get_current_version_search [OF assms(4)]
  by simp

theorem get_current_version_first_token_witness:
  "is_version ''1.15.8'' \<and> search VERSION_PATTERN ''UA = '' = None \<and>
   \<not> starts_with_digit '' linux; antigravity/9.9.9'' \<and>
   fst (get_current_version (world_of ''UA = antigravity/1.15.8 linux; antigravity/9.9.9'')) =
     Some ''1.15.8''"
proof -
  have x: "is_version ''1.15.8''"
    by code_simp
  have u: "search VERSION_PATTERN ''UA = '' = None"
    by code_simp
  have r: "\<not> starts_with_digit '' linux; antigravity/9.9.9''"
    by (simp add: is_digit_def)
  have f: "file_text (world_of ''UA = antigravity/1.15.8 linux; antigravity/9.9.9'') =
      Some (''UA = '' @ ''antigravity/'' @ ''1.15.8'' @ '' linux; antigravity/9.9.9'')"
    by (simp add: world_of_def)
  from get_current_version_first_token [OF x u r f] x u r show ?thesis
    by simp
qed


section \<open>Versions from download URLs\<close>

text \<open>
  C3 states that for every URL of the form \<open>.../<A.B.C>-<digits>/linux-x64/...\<close> the
  result is \<open>A.B.C\<close>. The pattern does not look at what follows the segment and the
  search stops at the leftmost match: when an earlier path segment has the same shape,
  its version is returned.
\<close>

theorem extract_version_from_url_counterexample:
  "is_version ''1.15.8'' \<and> digit_string ''572'' \<and>
   fst (extract_version_from_url
     (''https://h/1.0.0-1/stable'' @ ''/'' @ ''1.15.8'' @ ''-'' @ ''572'' @ ''/'' @
      ''linux-x64/Antigravity.tar.gz'') (world_of [])) = Some ''1.0.0''"
  by code_simp

text \<open>
  C3, amended. For every URL that has a path segment \<open>/x-b/\<close> with a version token
  \<open>x\<close> and a non-empty string of digits \<open>b\<close>, such that no match of the pattern starts
  before this segment (it is the leftmost such segment), \<open>extract_version_from_url\<close>
  returns \<open>x\<close> without the build number \<open>b\<close>. The result is absent exactly when the URL
  has no such segment.
\<close>

theorem extract_version_from_url_leftmost:
  "(is_version x \<longrightarrow> digit_string b \<longrightarrow>
      no_match_before TARBALL_VERSION_PATTERN u (''/'' @ x @ ''-'' @ b @ ''/'' @ r) \<longrightarrow>
      fst (extract_version_from_url (u @ ''/'' @ x @ ''-'' @ b @ ''/'' @ r) w) = Some x) \<and>
   ((fst (extract_version_from_url s w) = None) =
      (\<nexists>u x b r. s = u @ ''/'' @ x @ ''-'' @ b @ ''/'' @ r \<and> is_version x \<and> digit_string b))"
proof (intro conjI impI iffI)
  assume x: "is_version x" and b: "digit_string b"
    and n: "no_match_before TARBALL_VERSION_PATTERN u (''/'' @ x @ ''-'' @ b @ ''/'' @ r)"
  from search_append [OF n] search_here [OF match_here_TARBALL_segment [OF x b, of r]]
  have "search TARBALL_VERSION_PATTERN (u @ ''/'' @ x @ ''-'' @ b @ ''/'' @ r) =
      Some (u, ''/'' @ x @ ''-'' @ b @ ''/'', x, r)"
    by simp
  then show "fst (extract_version_from_url (u @ ''/'' @ x @ ''-'' @ b @ ''/'' @ r) w) = Some x"
    by (simp add: extract_version_from_url_def)
next
  assume none: "\<nexists>u x b r. s = u @ ''/'' @ x @ ''-'' @ b @ ''/'' @ r \<and> is_version x \<and> digit_string b"
  show "fst (extract_version_from_url s w) = None"
  proof (cases "search TARBALL_VERSION_PATTERN s")
    case None
    then show ?thesis by (simp add: extract_version_from_url_def)
  next
    case (Some a)
    obtain u m g r where a: "a = (u, m, g, r)" by (cases a)
    from search_splits [of TARBALL_VERSION_PATTERN s u m g r] Some a
    have s: "s = u @ m @ r"
      and h: "match_here TARBALL_VERSION_PATTERN (m @ r) = Some (m, g, r)"
      by simp_all
    from match_here_TARBALL_Some [OF h] obtain b
      where "is_version g" "digit_string b" "m = ''/'' @ g @ ''-'' @ b @ ''/''"
      by blast
    with s none show ?thesis
      by auto
  qed
next
  assume absent: "fst (extract_version_from_url s w) = None"
  then have n: "search TARBALL_VERSION_PATTERN s = None"
    by (auto simp: extract_version_from_url_def split: option.splits)
  show "\<nexists>u x b r. s = u @ ''/'' @ x @ ''-'' @ b @ ''/'' @ r \<and> is_version x \<and> digit_string b"
  proof
    assume "\<exists>u x b r. s = u @ ''/'' @ x @ ''-'' @ b @ ''/'' @ r \<and> is_version x \<and> digit_string b"
    then obtain u x b r where s: "s = u @ ''/'' @ x @ ''-'' @ b @ ''/'' @ r"
      and x: "is_version x" and b: "digit_string b"
      by blast
    have "match_here TARBALL_VERSION_PATTERN (drop (length u) s) = None"
      using n by (rule search_None_drop) (simp add: s)
    with match_here_TARBALL_segment [OF x b, of r] show False
      by (simp add: s)
  qed
qed

theorem extract_version_from_url_leftmost_witness:
  "is_version ''1.16.2'' \<and> digit_string ''99887766'' \<and>
   no_match_before TARBALL_VERSION_PATTERN ''https://x/stable''
     (''/'' @ ''1.16.2'' @ ''-'' @ ''99887766'' @ ''/'' @ ''linux-x64/Antigravity.tar.gz'') \<and>
   fst (extract_version_from_url
     ''https://x/stable/1.16.2-99887766/linux-x64/Antigravity.tar.gz'' (world_of [])) =
     Some ''1.16.2''"
proof -
  have x: "is_version ''1.16.2''"
    by code_simp
  have b: "digit_string ''99887766''"
    by code_simp
  have n: "no_match_before TARBALL_VERSION_PATTERN ''https://x/stable''
     (''/'' @ ''1.16.2'' @ ''-'' @ ''99887766'' @ ''/'' @ ''linux-x64/Antigravity.tar.gz'')"
    by code_simp
  from extract_version_from_url_leftmost
    [of "''1.16.2''" "''99887766''" "''https://x/stable''" "''linux-x64/Antigravity.tar.gz''"
      "world_of []" "[]"]
    x b n
  have "fst (extract_version_from_url
     (''https://x/stable'' @ ''/'' @ ''1.16.2'' @ ''-'' @ ''99887766'' @ ''/'' @
      ''linux-x64/Antigravity.tar.gz'') (world_of [])) = Some ''1.16.2''"
    by blast
  with x b n show ?thesis
    by simp
qed


section \<open>Patching and reading back\<close>

text \<open>
  C4. Round trip: when the contents of the tracked file contain an occurrence (the
  current version can be read) and \<open>x\<close> is a version token, \<open>update_version\<close> computes new
  contents from which \<open>get_current_version\<close> reads \<open>x\<close>; when the write succeeds,
  \<open>update_version\<close> returns \<open>True\<close>, the file holds these contents and reading the current
  version from it yields \<open>x\<close>.
\<close>

theorem round_trip:
  assumes x: "is_version x" and c: "fst (get_current_version w) = Some c"
  shows "\<exists>n. patched x w = Some n \<and>
           fst (get_current_version (w\<lparr>file_text := Some n\<rparr>)) = Some x \<and>
           (writable w \<longrightarrow>
              fst (update_version x False w) = Inr True \<and>
              file_text (snd (update_version x False w)) = Some n \<and>
              fst (get_current_version (snd (update_version x False w))) = Some x)"
proof -
  from get_current_version_Some [OF c] obtain s u m r
    where f: "file_text w = Some s" and s: "search VERSION_PATTERN s = Some (u, m, c, r)"
    by blast
  let ?n = "sub_loop (map Text (''antigravity/'' @ x)) s"
  have p: "patched x w = Some ?n"
    using x f by (rule patched_version)
  from search_after_sub [OF x s] obtain r'
    where n: "search VERSION_PATTERN ?n = Some (u, ''antigravity/'' @ x, x, r')"
    by blast
  have g: "fst (get_current_version w') = Some x" if "file_text w' = Some ?n" for w'
    using get_current_version_search [OF that] n by simp
  have "fst (get_current_version (w\<lparr>file_text := Some ?n\<rparr>)) = Some x"
    by (rule g) simp
  moreover have "fst (update_version x False w) = Inr True \<and>
      file_text (snd (update_version x False w)) = Some ?n \<and>
      fst (get_current_version (snd (update_version x False w))) = Some x" if "writable w"
    using update_version_patched [OF f p, of False] that g by simp
  ultimately show ?thesis
    using p by blast
qed

theorem round_trip_witness:
  "is_version ''1.15.8'' \<and>
   fst (get_current_version (world_of ''UA = antigravity/1.15.7 linux'')) = Some ''1.15.7'' \<and>
   file_text (snd (update_version ''1.15.8'' False (world_of ''UA = antigravity/1.15.7 linux'')))
     = Some ''UA = antigravity/1.15.8 linux'' \<and>
   fst (get_current_version
     (snd (update_version ''1.15.8'' False (world_of ''UA = antigravity/1.15.7 linux'')))) =
     Some ''1.15.8''"
proof -
  let ?w = "world_of ''UA = antigravity/1.15.7 linux''"
  have x: "is_version ''1.15.8''"
    by code_simp
  have c: "fst (get_current_version ?w) = Some ''1.15.7''"
    by code_simp
  have p: "patched ''1.15.8'' ?w = Some ''UA = antigravity/1.15.8 linux''"
    by code_simp
  have wr: "writable ?w"
    by (simp add: world_of_def)
  from round_trip [OF x c] obtain n
    where "patched ''1.15.8'' ?w = Some n"
      and "writable ?w \<longrightarrow>
        fst (update_version ''1.15.8'' False ?w) = Inr True \<and>
        file_text (snd (update_version ''1.15.8'' False ?w)) = Some n \<and>
        fst (get_current_version (snd (update_version ''1.15.8'' False ?w))) = Some ''1.15.8''"
    by blast
  with p wr x c show ?thesis
    by simp
qed


section \<open>Patching to the current version\<close>

text \<open>
  C5 states that for every contents of the tracked file, patching to the current
  version changes nothing. The current version is the token of the first occurrence,
  and \<open>sub\<close> rewrites every occurrence: with a second occurrence that carries another
  token the contents change and the file is written.
\<close>

theorem idempotent_update_counterexample:
  "file_text (world_of ''antigravity/1.2.3 antigravity/4.5.6'') =
     Some ''antigravity/1.2.3 antigravity/4.5.6'' \<and>
   fst (get_current_version (world_of ''antigravity/1.2.3 antigravity/4.5.6'')) = Some ''1.2.3'' \<and>
   patched ''1.2.3'' (world_of ''antigravity/1.2.3 antigravity/4.5.6'') =
     Some ''antigravity/1.2.3 antigravity/1.2.3'' \<and>
   writes (snd (update_version ''1.2.3'' False (world_of ''antigravity/1.2.3 antigravity/4.5.6'')))
     = 1 \<and>
   file_text (snd (update_version ''1.2.3'' False
     (world_of ''antigravity/1.2.3 antigravity/4.5.6''))) =
     Some ''antigravity/1.2.3 antigravity/1.2.3''"
  by code_simp

text \<open>
  C5, amended. Idempotence: for every contents of the tracked file in which every
  occurrence carries the current version (in particular when there is one occurrence),
  patching to the current version computes the same contents: \<open>update_version\<close> returns
  \<open>True\<close>, does not call \<open>write_text\<close> and leaves the file as it is, with and without
  \<open>dry_run\<close>.
\<close>

theorem idempotent_update:
  assumes c: "fst (get_current_version w) = Some c" and f: "file_text w = Some s"
    and all: "\<forall>t \<in> set (findall s). t = c"
  shows "patched c w = Some s \<and> fst (update_version c d w) = Inr True \<and>
         file_text (snd (update_version c d w)) = file_text w \<and>
         writes (snd (update_version c d w)) = writes w"
proof -
  from get_current_version_Some [OF c] f obtain u m r
    where s: "search VERSION_PATTERN s = Some (u, m, c, r)"
    by auto
  from search_VERSION_PATTERN_Some [OF s] have v: "is_version c"
    by simp
  have p: "patched c w = Some s"
    using patched_version [OF v f] sub_loop_same [OF all] by simp
  from update_version_unchanged [OF f p, of d] p f show ?thesis
    by (simp add: print_out_def)
qed

theorem idempotent_update_witness:
  "fst (get_current_version (world_of ''antigravity/1.2.3 antigravity/1.2.3'')) = Some ''1.2.3'' \<and>
   findall ''antigravity/1.2.3 antigravity/1.2.3'' = [''1.2.3'', ''1.2.3''] \<and>
   patched ''1.2.3'' (world_of ''antigravity/1.2.3 antigravity/1.2.3'') =
     Some ''antigravity/1.2.3 antigravity/1.2.3'' \<and>
   fst (update_version ''1.2.3'' False (world_of ''antigravity/1.2.3 antigravity/1.2.3'')) =
     Inr True \<and>
   writes (snd (update_version ''1.2.3'' False (world_of ''antigravity/1.2.3 antigravity/1.2.3'')))
     = 0"
proof -
  let ?s = "''antigravity/1.2.3 antigravity/1.2.3''"
  have c: "fst (get_current_version (world_of ?s)) = Some ''1.2.3''"
    by code_simp
  have f: "file_text (world_of ?s) = Some ?s"
    by (simp add: world_of_def)
  have l: "findall ?s = [''1.2.3'', ''1.2.3'']"
    by code_simp
  then have all: "\<forall>t \<in> set (findall ?s). t = ''1.2.3''"
    by simp
  from idempotent_update [OF c f all, of False] c l show ?thesis
    by (simp add: world_of_def)
qed


section \<open>Several occurrences\<close>

text \<open>
  C10. When the contents of the tracked file contain several occurrences
  \<open>antigravity/t\<close>, possibly with different tokens, \<open>get_current_version\<close> returns the token
  of the earliest one, and \<open>update_version\<close> with a version token \<open>v\<close> computes the
  contents in which every occurrence reads \<open>antigravity/v\<close> and everything else is as
  before; no error is raised for the several matches, and a write that succeeds stores
  these contents. The contents are given by their parts: the text \<open>u\<close> before the
  first occurrence and, for each occurrence, its token and the text after it, where
  these texts contain no match and a text after a token does not begin with a digit.
\<close>

theorem several_occurrences:
  assumes f: "file_text w = Some (text_of u ((t, u') # ps))"
    and u: "search VERSION_PATTERN u = None"
    and ps: "\<forall>(t, u') \<in> set ((t, u') # ps).
               is_version t \<and> search VERSION_PATTERN u' = None \<and> \<not> starts_with_digit u'"
    and v: "is_version v"
  shows "fst (get_current_version w) = Some t \<and>
         patched v w = Some (text_of u (map (\<lambda>(t, u'). (v, u')) ((t, u') # ps))) \<and>
         (writable w \<longrightarrow>
            fst (update_version v False w) = Inr True \<and>
            file_text (snd (update_version v False w)) =
              Some (text_of u (map (\<lambda>(t, u'). (v, u')) ((t, u') # ps))))"
proof -
  from ps have t: "is_version t" and d: "\<not> starts_with_digit u'"
    by auto
  have g: "fst (get_current_version w) = Some t"
    using get_current_version_search [OF f] search_text_of [OF u t d, of ps] by simp
  have p: "patched v w = Some (text_of u (map (\<lambda>(t, u'). (v, u')) ((t, u') # ps)))"
    using patched_version [OF v f] sub_loop_text_of [OF u ps, of v] by simp
  from update_version_patched [OF f p, of False] g p show ?thesis
    by simp
qed

theorem several_occurrences_witness:
  "fst (get_current_version (world_of ''a antigravity/1.2.3 b antigravity/4.5.6 c'')) =
     Some ''1.2.3'' \<and>
   patched ''7.8.9'' (world_of ''a antigravity/1.2.3 b antigravity/4.5.6 c'') =
     Some ''a antigravity/7.8.9 b antigravity/7.8.9 c'' \<and>
   fst (update_version ''7.8.9'' False (world_of ''a antigravity/1.2.3 b antigravity/4.5.6 c''))
     = Inr True \<and>
   file_text (snd (update_version ''7.8.9'' False
     (world_of ''a antigravity/1.2.3 b antigravity/4.5.6 c''))) =
     Some ''a antigravity/7.8.9 b antigravity/7.8.9 c''"
proof -
  let ?w = "world_of ''a antigravity/1.2.3 b antigravity/4.5.6 c''"
  have f: "file_text ?w = Some (text_of ''a '' ((''1.2.3'', '' b '') # [(''4.5.6'', '' c'')]))"
    by (simp add: world_of_def)
  have u: "search VERSION_PATTERN ''a '' = None"
    by code_simp
  have t: "is_version ''1.2.3''" "is_version ''4.5.6''" "is_version ''7.8.9''"
    by code_simp+
  have g: "search VERSION_PATTERN '' b '' = None" "search VERSION_PATTERN '' c'' = None"
    by code_simp+
  have d: "\<not> starts_with_digit '' b ''" "\<not> starts_with_digit '' c''"
    by (simp_all add: is_digit_def)
  have ps: "\<forall>(t, u') \<in> set ((''1.2.3'', '' b '') # [(''4.5.6'', '' c'')]).
      is_version t \<and> search VERSION_PATTERN u' = None \<and> \<not> starts_with_digit u'"
    using t g d by simp
  have wr: "writable ?w"
    by (simp add: world_of_def)
  from several_occurrences [OF f u ps t(3)] wr show ?thesis
    by simp
qed

end
